theory Spec2Isabelle
  imports Complex_Main "HOL-Library.AList" "HOL-Library.Log_Nat"
begin

section \<open>Conventions of the embedding\<close>

text \<open>
  The Python sources \<^verbatim>\<open>src/triad.py\<close>, \<^verbatim>\<open>src/tails.py\<close>, \<^verbatim>\<open>sanity_check.py\<close> and
  \<^verbatim>\<open>scripts/triad_full.py\<close> are embedded as HOL functions.

  \<^item> Python \<^verbatim>\<open>int\<close> is \<^typ>\<open>int\<close> (unbounded); \<^verbatim>\<open>//\<close> is \<open>div\<close> (both round to minus
    infinity).
  \<^item> Python \<^verbatim>\<open>float\<close> is \<^typ>\<open>real\<close>: the operations on floats are exact, their rounding
    and overflow are outside the model.
  \<^item> The conversion of an \<^verbatim>\<open>int\<close> to a \<^verbatim>\<open>float\<close> is taken as exact, which it is up to
    \<open>2\<^sup>5\<^sup>3\<close>, except in the tail bounds \<open>xi_tail_bound_conv\<close>, \<open>e_tail_bound_conv\<close>,
    \<open>omega_tail_bound_conv\<close> and \<open>triad_tail_bound_conv\<close>, where it is written out with its
    rounding to 53 bits and its \<^verbatim>\<open>OverflowError\<close>.
  \<^item> An exception is a value \<open>Inl e\<close> of the type \<open>py_error + 'a\<close>. The implicit raises of
    the interpreter are written out: float division by zero, \<^verbatim>\<open>math.log\<close> and
    \<^verbatim>\<open>math.log2\<close> outside their domain, list indexing out of range, an extended-slice
    assignment of the wrong size, \<^verbatim>\<open>max\<close> of an empty sequence.
  \<^item> A \<^verbatim>\<open>for\<close> loop over a \<^verbatim>\<open>range\<close> is a recursion over the list of the indices the range
    produces.
\<close>

datatype py_error =
  ZeroDivisionError | ValueError | IndexError | KeyError | RuntimeError | ArithmeticError
  | OverflowError

definition rbind :: "py_error + 'a \<Rightarrow> ('a \<Rightarrow> py_error + 'b) \<Rightarrow> py_error + 'b" where
  "rbind m f = (case m of Inl e \<Rightarrow> Inl e | Inr x \<Rightarrow> f x)"

text \<open>\<^verbatim>\<open>a / b\<close> on floats.\<close>

definition py_fdiv :: "real \<Rightarrow> real \<Rightarrow> py_error + real" where
  "py_fdiv a b = (if b = 0 then Inl ZeroDivisionError else Inr (a / b))"

text \<open>\<^verbatim>\<open>math.log(x)\<close> and \<^verbatim>\<open>math.log2(x)\<close>: a math domain error unless \<open>x\<close> is positive.\<close>

definition py_log :: "real \<Rightarrow> py_error + real" where
  "py_log x = (if x \<le> 0 then Inl ValueError else Inr (ln x))"

definition py_log2 :: "real \<Rightarrow> py_error + real" where
  "py_log2 x = (if x \<le> 0 then Inl ValueError else Inr (log 2 x))"

text \<open>
  The conversion of an \<^verbatim>\<open>int\<close> to a \<^verbatim>\<open>float\<close>, which the interpreter performs when an
  \<^verbatim>\<open>int\<close> meets a \<^verbatim>\<open>float\<close> in \<^verbatim>\<open>*\<close> or \<^verbatim>\<open>/\<close>. The result is the integer rounded to 53
  significant bits, a tie going to the even significand: for \<open>2\<^sup>5\<^sup>3 \<le> \<bar>k\<bar>\<close> with \<open>b\<close> bits the
  unit is \<open>u = 2\<^bsup>b - 53\<^esup>\<close> and the result a multiple of \<open>u\<close>.
\<close>

definition round53 :: "int \<Rightarrow> int" where
  "round53 k =
     (let a = \<bar>k\<bar> in
      if a < 2 ^ 53 then k
      else let u = 2 ^ nat (bitlen a - 53);
               q = a div u;
               r = a mod u;
               q' = (if 2 * r < u \<or> (2 * r = u \<and> even q) then q else q + 1)
           in sgn k * (q' * u))"

text \<open>
  A rounded value of \<open>2\<^sup>1\<^sup>0\<^sup>2\<^sup>4\<close> or more is no \<^verbatim>\<open>float\<close>: the conversion raises
  \<^verbatim>\<open>OverflowError\<close>. For a non-negative integer this happens from \<open>float_limit\<close> on.
\<close>

definition float_limit :: int where
  "float_limit = 2 ^ 1024 - 2 ^ 970"

definition py_float :: "int \<Rightarrow> py_error + real" where
  "py_float k =
     (if 2 ^ 1024 \<le> \<bar>round53 k\<bar> then Inl OverflowError else Inr (real_of_int (round53 k)))"

text \<open>
  \<^verbatim>\<open>math.log(k)\<close> of an \<^verbatim>\<open>int\<close>: a math domain error unless \<open>k\<close> is positive. It does not
  overflow: for an integer beyond the range of the floats the logarithm is taken of the
  53-bit significand and the exponent is added as a multiple of \<open>ln 2\<close>, which over the
  reals is the logarithm of the rounded integer again.
\<close>

definition py_log_int :: "int \<Rightarrow> py_error + real" where
  "py_log_int k = (if k \<le> 0 then Inl ValueError else Inr (ln (real_of_int (round53 k))))"

text \<open>
  \<^verbatim>\<open>xs[i]\<close> on a list: the indices \<open>0 .. len - 1\<close> read from the front, \<open>-len .. -1\<close> from the
  back, every other index raises.
\<close>

definition py_get :: "'a list \<Rightarrow> int \<Rightarrow> py_error + 'a" where
  "py_get xs i =
     (if 0 \<le> i \<and> i < int (length xs) then Inr (xs ! nat i)
      else if - int (length xs) \<le> i \<and> i < 0 then Inr (xs ! nat (int (length xs) + i))
      else Inl IndexError)"

text \<open>\<^verbatim>\<open>range(a, b)\<close> and \<^verbatim>\<open>range(a, b, step)\<close> for a positive step, as lists.\<close>

definition py_range :: "int \<Rightarrow> int \<Rightarrow> int list" where
  "py_range a b = [a..b - 1]"

function py_range_step :: "int \<Rightarrow> int \<Rightarrow> int \<Rightarrow> int list" where
  "py_range_step a b step =
     (if 0 < step \<and> a < b then a # py_range_step (a + step) b step else [])"
  by pat_completeness auto
termination
  by (relation "measure (\<lambda>(a, b, step). nat (b - a))") auto

declare py_range_step.simps [simp del]

text \<open>A \<^verbatim>\<open>for\<close> loop whose body may raise: the first exception ends the loop.\<close>

fun for_each :: "('st \<Rightarrow> int \<Rightarrow> py_error + 'st) \<Rightarrow> 'st \<Rightarrow> int list \<Rightarrow> py_error + 'st" where
  "for_each body st [] = Inr st"
| "for_each body st (i # is) =
     (case body st i of Inl e \<Rightarrow> Inl e | Inr st' \<Rightarrow> for_each body st' is)"

section \<open>\<^verbatim>\<open>src/triad.py\<close>: the compensated accumulator\<close>

text \<open>
  \<^verbatim>\<open>
  @dataclass
  class Kahan:
      s: float = 0.0
      c: float = 0.0
      def add(self, x):
          y = x - self.c
          t = self.s + y
          self.c = (t - self.s) - y
          self.s = t
      def value(self):
          return self.s
  \<close>
\<close>

record Kahan =
  s :: real
  c :: real

definition Kahan_init :: Kahan where
  "Kahan_init = \<lparr>s = 0, c = 0\<rparr>"

definition Kahan_add :: "'z Kahan_scheme \<Rightarrow> real \<Rightarrow> 'z Kahan_scheme" where
  "Kahan_add self x =
     (let y = x - c self;
          t = s self + y
      in self\<lparr>c := (t - s self) - y, s := t\<rparr>)"

definition Kahan_value :: "'z Kahan_scheme \<Rightarrow> real" where
  "Kahan_value self = s self"

section \<open>\<^verbatim>\<open>src/triad.py\<close>: term functions\<close>

text \<open>\<^verbatim>\<open>2.0 / (i * i * (i - 1.0))\<close>\<close>

definition xi_term :: "int \<Rightarrow> py_error + real" where
  "xi_term i = py_fdiv 2 (real_of_int (i * i) * (real_of_int i - 1))"

text \<open>\<^verbatim>\<open>log2(i) / (i * i)\<close>\<close>

definition e_term :: "int \<Rightarrow> py_error + real" where
  "e_term i = rbind (py_log2 (real_of_int i)) (\<lambda>l. py_fdiv l (real_of_int (i * i)))"

text \<open>\<^verbatim>\<open>1.0 / (i * (phi_i + pi_i))\<close>\<close>

definition omega_term :: "int \<Rightarrow> int \<Rightarrow> int \<Rightarrow> py_error + real" where
  "omega_term i phi_i pi_i = py_fdiv 1 (real_of_int (i * (phi_i + pi_i)))"

section \<open>\<^verbatim>\<open>src/triad.py\<close>: scalar evaluators\<close>

definition Xi :: "int \<Rightarrow> py_error + real" where
  "Xi n =
     (if n < 3 then Inr 0
      else rbind (for_each (\<lambda>acc i. rbind (xi_term i) (\<lambda>x. Inr (Kahan_add acc x)))
                    Kahan_init (py_range 3 (n + 1)))
             (\<lambda>acc. Inr (Kahan_value acc)))"

definition E :: "int \<Rightarrow> py_error + real" where
  "E n =
     (if n < 2 then Inr 0
      else rbind (for_each (\<lambda>acc i. rbind (e_term i) (\<lambda>x. Inr (Kahan_add acc x)))
                    Kahan_init (py_range 2 (n + 1)))
             (\<lambda>acc. Inr (Kahan_value acc)))"

definition Omega :: "int \<Rightarrow> int list \<Rightarrow> int list \<Rightarrow> py_error + real" where
  "Omega n phi_t pi_t =
     (if n < 2 then Inr 0
      else rbind (for_each (\<lambda>acc i.
                      rbind (py_get phi_t i) (\<lambda>phi_i.
                      rbind (py_get pi_t i) (\<lambda>pi_i.
                      rbind (omega_term i phi_i pi_i) (\<lambda>x. Inr (Kahan_add acc x)))))
                    Kahan_init (py_range 2 (n + 1)))
             (\<lambda>acc. Inr (Kahan_value acc)))"

definition F :: "int \<Rightarrow> int list \<Rightarrow> int list \<Rightarrow> py_error + real" where
  "F n phi_t pi_t =
     rbind (Xi n) (\<lambda>x.
     rbind (Omega n phi_t pi_t) (\<lambda>om.
     rbind (E n) (\<lambda>e. Inr (x + om - e))))"

section \<open>\<^verbatim>\<open>src/tails.py\<close>\<close>

definition EULER_GAMMA :: real where
  "EULER_GAMMA = 0.5772156649015329"

text \<open>
  \<^verbatim>\<open>n = max(int(n), 2); return 2.0 / (n * n)\<close>
\<close>

definition xi_tail_bound :: "int \<Rightarrow> py_error + real" where
  "xi_tail_bound n0 = (let n = max n0 2 in py_fdiv 2 (real_of_int (n * n)))"

text \<open>
  \<^verbatim>\<open>n = max(int(n), 2); return (log(n) + 1.0) / (n * log(2.0))\<close>
\<close>

definition e_tail_bound :: "int \<Rightarrow> py_error + real" where
  "e_tail_bound n0 =
     (let n = max n0 2
      in rbind (py_log (real_of_int n)) (\<lambda>ln_n.
         rbind (py_log 2) (\<lambda>ln_2.
         py_fdiv (ln_n + 1) (real_of_int n * ln_2))))"

text \<open>
  \<^verbatim>\<open>n = max(int(n), 3)
  return ((pow(2.718281828459045, EULER_GAMMA) * log(log(n))) + D_omega) / n\<close>

  The base of the power is positive, so \<^verbatim>\<open>pow\<close> is \<open>powr\<close>.
\<close>

definition omega_tail_bound :: "int \<Rightarrow> real \<Rightarrow> py_error + real" where
  "omega_tail_bound n0 D_omega =
     (let n = max n0 3
      in rbind (py_log (real_of_int n)) (\<lambda>ln_n.
         rbind (py_log ln_n) (\<lambda>ln_ln_n.
         py_fdiv ((2.718281828459045 powr EULER_GAMMA) * ln_ln_n + D_omega) (real_of_int n))))"

definition triad_tail_bound :: "int \<Rightarrow> real \<Rightarrow> py_error + (real \<times> real \<times> real \<times> real)" where
  "triad_tail_bound n D_omega =
     rbind (xi_tail_bound n) (\<lambda>rx.
     rbind (e_tail_bound n) (\<lambda>re.
     rbind (omega_tail_bound n D_omega) (\<lambda>ro.
     Inr (rx, re, ro, rx + re + ro))))"


text \<open>
  The same four functions with the conversions of \<open>n * n\<close> and \<open>n\<close> to \<^verbatim>\<open>float\<close> written out,
  in the order the interpreter evaluates the operands:
  \<^verbatim>\<open>2.0 / (n * n)\<close> converts the integer \<open>n * n\<close>;
  \<^verbatim>\<open>(log(n) + 1.0) / (n * log(2.0))\<close> takes \<^verbatim>\<open>log\<close> of the integer, then converts \<open>n\<close> for the
  product; \<^verbatim>\<open>(... log(log(n)) ... + D_omega) / n\<close> takes \<^verbatim>\<open>log\<close> of the integer, then of the
  float, then converts \<open>n\<close> for the division.
  The functions above take these conversions as exact and never raise; they agree with
  the ones below as long as \<open>max(n, 2)\<^sup>2 \<le> 2\<^sup>5\<^sup>3\<close> (lemma \<open>tail_bounds_conv_exact\<close>).
  \<^verbatim>\<open>compute_values\<close> calls the tail bounds at indices of the stream only, behind two
  tables of that length, and is embedded over the functions above; what the tail bounds
  do at an arbitrary integer is stated of the functions below.
\<close>

definition xi_tail_bound_conv :: "int \<Rightarrow> py_error + real" where
  "xi_tail_bound_conv n0 =
     (let n = max n0 2 in rbind (py_float (n * n)) (\<lambda>nn. py_fdiv 2 nn))"

definition e_tail_bound_conv :: "int \<Rightarrow> py_error + real" where
  "e_tail_bound_conv n0 =
     (let n = max n0 2
      in rbind (py_log_int n) (\<lambda>ln_n.
         rbind (py_log 2) (\<lambda>ln_2.
         rbind (py_float n) (\<lambda>nf.
         py_fdiv (ln_n + 1) (nf * ln_2)))))"

definition omega_tail_bound_conv :: "int \<Rightarrow> real \<Rightarrow> py_error + real" where
  "omega_tail_bound_conv n0 D_omega =
     (let n = max n0 3
      in rbind (py_log_int n) (\<lambda>ln_n.
         rbind (py_log ln_n) (\<lambda>ln_ln_n.
         rbind (py_float n) (\<lambda>nf.
         py_fdiv ((2.718281828459045 powr EULER_GAMMA) * ln_ln_n + D_omega) nf))))"

definition triad_tail_bound_conv :: "int \<Rightarrow> real \<Rightarrow> py_error + (real \<times> real \<times> real \<times> real)" where
  "triad_tail_bound_conv n D_omega =
     rbind (xi_tail_bound_conv n) (\<lambda>rx.
     rbind (e_tail_bound_conv n) (\<lambda>re.
     rbind (omega_tail_bound_conv n D_omega) (\<lambda>ro.
     Inr (rx, re, ro, rx + re + ro))))"


definition e_gamma :: real where
  "e_gamma = 2.718281828459045 powr EULER_GAMMA"

section \<open>\<^verbatim>\<open>src/triad.py\<close>: the streaming prefix engine\<close>

text \<open>
  The local variables of the generator \<^verbatim>\<open>stream_prefix_values\<close>: three accumulators and
  the three values last read from them.
\<close>

record stream_state =
  xi_acc :: Kahan
  om_acc :: Kahan
  e_acc :: Kahan
  xi_val :: real
  om_val :: real
  e_val :: real

definition stream_init :: stream_state where
  "stream_init =
     \<lparr>xi_acc = Kahan_init, om_acc = Kahan_init, e_acc = Kahan_init,
      xi_val = 0, om_val = 0, e_val = 0\<rparr>"

type_synonym prefix_record = "int \<times> real \<times> real \<times> real \<times> real"

text \<open>
  One pass of the loop body for the index \<open>n\<close>:
  \<^verbatim>\<open>
  if n >= 3:
      xi_acc.add(xi_term(n)); xi_val = xi_acc.value()
  if n >= 2:
      e_acc.add(e_term(n)); e_val = e_acc.value()
      om_acc.add(omega_term(n, phi[n], pi[n])); om_val = om_acc.value()
  F_val = xi_val + om_val - e_val
  yield (n, xi_val, om_val, e_val, F_val)
  \<close>
  The result is the state after the pass and the record yielded.
\<close>

definition stream_body ::
  "int list \<Rightarrow> int list \<Rightarrow> stream_state \<Rightarrow> int \<Rightarrow> py_error + (stream_state \<times> prefix_record)" where
  "stream_body phi_t pi_t st n =
     rbind (if 3 \<le> n
            then rbind (xi_term n) (\<lambda>x.
                   let a = Kahan_add (xi_acc st) x
                   in Inr (st\<lparr>xi_acc := a, xi_val := Kahan_value a\<rparr>))
            else Inr st) (\<lambda>st1.
     rbind (if 2 \<le> n
            then rbind (e_term n) (\<lambda>x.
                   let a = Kahan_add (e_acc st1) x;
                       st2 = st1\<lparr>e_acc := a, e_val := Kahan_value a\<rparr>
                   in rbind (py_get phi_t n) (\<lambda>phi_n.
                      rbind (py_get pi_t n) (\<lambda>pi_n.
                      rbind (omega_term n phi_n pi_n) (\<lambda>w.
                        let b = Kahan_add (om_acc st2) w
                        in Inr (st2\<lparr>om_acc := b, om_val := Kahan_value b\<rparr>)))))
            else Inr st1) (\<lambda>st3.
     Inr (st3, (n, xi_val st3, om_val st3, e_val st3,
                xi_val st3 + om_val st3 - e_val st3))))"

text \<open>
  A generator is the list of the records it yields, followed by the exception that ended
  it, if one did. A consumer sees the records in order and meets the exception only when
  it asks for the record after the last one.
\<close>

fun stream_loop ::
  "int list \<Rightarrow> int list \<Rightarrow> stream_state \<Rightarrow> int list \<Rightarrow> prefix_record list \<times> py_error option" where
  "stream_loop phi_t pi_t st [] = ([], None)"
| "stream_loop phi_t pi_t st (n # ns) =
     (case stream_body phi_t pi_t st n of
        Inl e \<Rightarrow> ([], Some e)
      | Inr (st', r) \<Rightarrow>
          (case stream_loop phi_t pi_t st' ns of (rs, err) \<Rightarrow> (r # rs, err)))"

definition stream_prefix_values ::
  "int \<Rightarrow> int list \<Rightarrow> int list \<Rightarrow> prefix_record list \<times> py_error option" where
  "stream_prefix_values N phi_t pi_t = stream_loop phi_t pi_t stream_init (py_range 1 (N + 1))"

section \<open>\<^verbatim>\<open>src/triad.py\<close>: the sieves\<close>

text \<open>
  \<^verbatim>\<open>xs[start:stop:step] = vals\<close> for \<open>0 \<le> start\<close>, \<open>0 \<le> stop\<close> and \<open>2 \<le> step\<close> (an extended
  slice): the bounds are clipped to the length of the list, and the interpreter raises
  \<^verbatim>\<open>ValueError\<close> unless \<open>vals\<close> has as many elements as the slice has positions.
\<close>

definition slice_assign :: "'a list \<Rightarrow> int \<Rightarrow> int \<Rightarrow> int \<Rightarrow> 'a list \<Rightarrow> py_error + 'a list" where
  "slice_assign xs start stop step vals =
     (let n = int (length xs);
          idx = py_range_step (min start n) (min stop n) step
      in if length vals \<noteq> length idx then Inl ValueError
         else Inr (fold (\<lambda>(j, v) ys. ys[nat j := v]) (zip idx vals) xs))"

text \<open>
  The \<^verbatim>\<open>while p * p <= N\<close> loop of \<^verbatim>\<open>sieve_primes_bool\<close>:
  \<^verbatim>\<open>
  if is_prime[p]:
      step = p
      start = p * p
      is_prime[start:N+1:step] = [False] * (((N - start) // step) + 1)
  p += 1
  \<close>
\<close>

function sieve_loop :: "int \<Rightarrow> bool list \<Rightarrow> int \<Rightarrow> py_error + bool list" where
  "sieve_loop N is_prime p =
     (if p * p \<le> N then
        (case (if is_prime ! nat p
               then slice_assign is_prime (p * p) (N + 1) p
                      (replicate (nat ((N - p * p) div p + 1)) False)
               else Inr is_prime) of
           Inl e \<Rightarrow> Inl e
         | Inr is_prime' \<Rightarrow> sieve_loop N is_prime' (p + 1))
      else Inr is_prime)"
  by pat_completeness auto
termination
proof (relation "measure (\<lambda>(N, is_prime, p). nat (N + 1 - p))")
  show "wf (measure (\<lambda>(N, is_prime, p). nat (N + 1 - p)))" by simp
next
  fix N :: int and is_prime :: "bool list" and p :: int and x2 :: "bool list"
  assume "p * p \<le> N"
  moreover have "p \<le> p * p"
  proof (cases "1 \<le> p")
    case True
    then have "p * 1 \<le> p * p" by (intro mult_left_mono) simp_all
    then show ?thesis by simp
  next
    case False
    then have "p \<le> 0" by simp
    moreover have "0 \<le> p * p" by simp
    ultimately show ?thesis by linarith
  qed
  ultimately have "p \<le> N" by linarith
  then show "((N, x2, p + 1), (N, is_prime, p)) \<in> measure (\<lambda>(N, is_prime, p). nat (N + 1 - p))"
    by simp
qed

declare sieve_loop.simps [simp del]

text \<open>
  \<^verbatim>\<open>
  if N < 1:
      return [False] * (N + 1)
  is_prime = [True] * (N + 1)
  is_prime[0] = is_prime[1] = False
  p = 2
  while p * p <= N: ...
  return is_prime
  \<close>
\<close>

definition sieve_primes_bool :: "int \<Rightarrow> py_error + bool list" where
  "sieve_primes_bool N =
     (if N < 1 then Inr (replicate (nat (N + 1)) False)
      else sieve_loop N ((replicate (nat (N + 1)) True)[0 := False, 1 := False]) 2)"

text \<open>
  \<^verbatim>\<open>
  is_prime = sieve_primes_bool(N)
  pi = [0] * (N + 1)
  cnt = 0
  for k in range(N + 1):
      if is_prime[k]:
          cnt += 1
      pi[k] = cnt
  return pi
  \<close>
  The loop state is the pair \<open>(pi, cnt)\<close>. The indices \<open>k\<close> run over \<open>0..N\<close>, inside both
  lists.
\<close>

definition sieve_pi :: "int \<Rightarrow> py_error + int list" where
  "sieve_pi N =
     rbind (sieve_primes_bool N) (\<lambda>is_prime.
       Inr (fst (foldl (\<lambda>(pi_t, cnt) k.
                          let cnt' = (if is_prime ! nat k then cnt + 1 else cnt)
                          in (pi_t[nat k := cnt'], cnt'))
                   (replicate (nat (N + 1)) 0, 0) (py_range 0 (N + 1)))))"

text \<open>
  \<^verbatim>\<open>
  phi = list(range(N + 1))
  if N >= 1:
      phi[1] = 1
  for i in range(2, N + 1):
      if phi[i] == i:  # i is prime
          for j in range(i, N + 1, i):
              phi[j] -= phi[j] // i
  return phi
  \<close>
  The indices \<open>i\<close> and \<open>j\<close> run over \<open>2..N\<close>, inside the list.
\<close>

definition phi_inner :: "int \<Rightarrow> int list \<Rightarrow> int \<Rightarrow> int list" where
  "phi_inner i phi_t j = phi_t[nat j := phi_t ! nat j - phi_t ! nat j div i]"

definition phi_outer :: "int \<Rightarrow> int list \<Rightarrow> int \<Rightarrow> int list" where
  "phi_outer N phi_t i =
     (if phi_t ! nat i = i then foldl (phi_inner i) phi_t (py_range_step i (N + 1) i)
      else phi_t)"

definition sieve_phi :: "int \<Rightarrow> int list" where
  "sieve_phi N =
     (let phi0 = py_range 0 (N + 1);
          phi1 = (if 1 \<le> N then phi0[1 := 1] else phi0)
      in foldl (phi_outer N) phi1 (py_range 2 (N + 1)))"

section \<open>\<^verbatim>\<open>scripts/triad_full.py\<close>: the guarded variants\<close>

text \<open>
  \<^verbatim>\<open>
  def sieve_totients(N):
      if N < 0: raise ValueError("N must be nonnegative")
      phi = list(range(N + 1)); phi[0] = 0
      if N >= 1: phi[1] = 1
      ... (the loops of sieve_phi)
  \<close>
\<close>

definition sieve_totients :: "int \<Rightarrow> py_error + int list" where
  "sieve_totients N =
     (if N < 0 then Inl ValueError
      else (let phi0 = (py_range 0 (N + 1))[0 := 0];
                phi1 = (if 1 \<le> N then phi0[1 := 1] else phi0)
            in Inr (foldl (phi_outer N) phi1 (py_range 2 (N + 1)))))"

text \<open>
  \<^verbatim>\<open>
  def Omega_terms(N, phi, pi):
      if len(phi) < N + 1 or len(pi) < N + 1: raise ValueError(...)
      t = [0.0] * (N + 1)
      for i in range(2, N + 1):
          denom = phi[i] + pi[i]
          if denom <= 0: raise ArithmeticError(...)
          t[i] = 1.0 / (i * denom)
      return t
  \<close>
  The length check puts every index \<open>i\<close> inside the three lists.
\<close>

definition Omega_terms :: "int \<Rightarrow> int list \<Rightarrow> int list \<Rightarrow> py_error + real list" where
  "Omega_terms N phi_t pi_t =
     (if int (length phi_t) < N + 1 \<or> int (length pi_t) < N + 1 then Inl ValueError
      else for_each (\<lambda>t i.
               let denom = phi_t ! nat i + pi_t ! nat i
               in if denom \<le> 0 then Inl ArithmeticError
                  else rbind (py_fdiv 1 (real_of_int (i * denom))) (\<lambda>v. Inr (t[nat i := v])))
             (replicate (nat (N + 1)) 0) (py_range 2 (N + 1)))"


section \<open>\<^verbatim>\<open>sanity_check.py\<close>: the certification composer\<close>

text \<open>
  The dictionaries \<^verbatim>\<open>vals\<close> and \<^verbatim>\<open>R\<close> are association lists in insertion order, updated in
  place for a key that is present; \<^verbatim>\<open>len\<close> is the length of the list. The set \<^verbatim>\<open>need\<close> is a
  set of integers and \<^verbatim>\<open>len(need)\<close> its cardinality.
\<close>

type_synonym vals_dict = "(int \<times> (real \<times> real \<times> real \<times> real)) list"

text \<open>
  The loop of \<^verbatim>\<open>compute_values\<close> over the generator (the progress output left out):
  \<^verbatim>\<open>
  for (n, xi, om, e_val, f_val) in stream_prefix_values(N, phi, pi):
      if n in need:
          vals[n] = (xi, om, e_val, f_val)
          R[n] = triad_tail_bound(n, D_omega=D_omega)
      if len(vals) == len(need):
          break
  \<close>
  When the records are used up, an exception that ended the generator reaches the loop.
\<close>

fun capture_loop ::
  "int set \<Rightarrow> real \<Rightarrow> vals_dict \<Rightarrow> vals_dict \<Rightarrow> prefix_record list \<times> py_error option
     \<Rightarrow> py_error + (vals_dict \<times> vals_dict)" where
  "capture_loop need D_omega vals R ([], err) =
     (case err of None \<Rightarrow> Inr (vals, R) | Some e \<Rightarrow> Inl e)"
| "capture_loop need D_omega vals R ((n, xi, om, e_v, f_v) # rs, err) =
     (case (if n \<in> need
            then rbind (triad_tail_bound n D_omega) (\<lambda>tb.
                   Inr (AList.update n (xi, om, e_v, f_v) vals, AList.update n tb R))
            else Inr (vals, R)) of
        Inl e \<Rightarrow> Inl e
      | Inr (vals', R') \<Rightarrow>
          if int (length vals') = int (card need) then Inr (vals', R')
          else capture_loop need D_omega vals' R' (rs, err))"

text \<open>
  \<^verbatim>\<open>
  N = max(max(points), N_ref)
  phi = sieve_phi(N)
  pi  = sieve_pi(N)
  need = set(points) | {N_ref}
  vals = {}; R = {}
  ... (the loop)
  if N_ref not in vals:
      raise RuntimeError(...)
  _, _, _, F_ref = vals[N_ref]
  _, _, _, Rtot_ref = R[N_ref]
  kappa_interval = (F_ref - Rtot_ref, F_ref + Rtot_ref)
  return vals, R, kappa_interval
  \<close>
  \<^verbatim>\<open>max(points)\<close> raises \<^verbatim>\<open>ValueError\<close> on an empty sequence.
\<close>

definition compute_values ::
  "int list \<Rightarrow> int \<Rightarrow> real \<Rightarrow> py_error + (vals_dict \<times> vals_dict \<times> (real \<times> real))" where
  "compute_values points N_ref D_omega =
     (if points = [] then Inl ValueError
      else
        let N = max (Max (set points)) N_ref;
            phi_t = sieve_phi N
        in rbind (sieve_pi N) (\<lambda>pi_t.
           let need = set points \<union> {N_ref}
           in rbind (capture_loop need D_omega [] [] (stream_prefix_values N phi_t pi_t))
                (\<lambda>(vals, R).
                   case map_of vals N_ref of
                     None \<Rightarrow> Inl RuntimeError
                   | Some (_, _, _, F_ref) \<Rightarrow>
                       (case map_of R N_ref of
                          None \<Rightarrow> Inl KeyError
                        | Some (_, _, _, Rtot_ref) \<Rightarrow>
                            Inr (vals, R, (F_ref - Rtot_ref, F_ref + Rtot_ref))))))"

section \<open>The number-theoretic functions the tables are specified by\<close>

text \<open>
  These follow the words of the data model, not the code: \<open>\<phi>(i)\<close> is the count of the
  integers in \<open>[1, i]\<close> coprime to \<open>i\<close>, a prime is a number above 1 whose only divisors are
  1 and itself, and \<open>\<pi>(i)\<close> is the number of primes up to \<open>i\<close>.
\<close>

definition coprime_count :: "nat \<Rightarrow> nat" where
  "coprime_count i = card {k \<in> {1..i}. coprime k i}"

definition is_prime_number :: "nat \<Rightarrow> bool" where
  "is_prime_number p = (1 < p \<and> (\<forall>d \<in> {1..p}. d dvd p \<longrightarrow> d = 1 \<or> d = p))"

definition prime_count :: "nat \<Rightarrow> nat" where
  "prime_count i = card {p \<in> {0..i}. is_prime_number p}"

text \<open>The closed forms of the three tail bounds on the reals.\<close>

definition RXi :: "real \<Rightarrow> real" where
  "RXi x = 2 / x\<^sup>2"

definition RE :: "real \<Rightarrow> real" where
  "RE x = (ln x + 1) / (x * ln 2)"

definition ROm :: "real \<Rightarrow> real \<Rightarrow> real" where
  "ROm D x = (e_gamma * ln (ln x) + D) / x"


section \<open>Auxiliary notions for the proofs about the stream\<close>

text \<open>
  The accumulator a scalar evaluator holds after its loop up to \<open>n\<close>; for \<open>n\<close> below the
  start index the range is empty and the accumulator is the initial one.
\<close>

definition xi_acc_upto :: "int \<Rightarrow> py_error + Kahan" where
  "xi_acc_upto n =
     for_each (\<lambda>acc i. rbind (xi_term i) (\<lambda>x. Inr (Kahan_add acc x))) Kahan_init (py_range 3 (n + 1))"

definition e_acc_upto :: "int \<Rightarrow> py_error + Kahan" where
  "e_acc_upto n =
     for_each (\<lambda>acc i. rbind (e_term i) (\<lambda>x. Inr (Kahan_add acc x))) Kahan_init (py_range 2 (n + 1))"

definition om_acc_upto :: "int list \<Rightarrow> int list \<Rightarrow> int \<Rightarrow> py_error + Kahan" where
  "om_acc_upto phi_t pi_t n =
     for_each (\<lambda>acc i.
                 rbind (py_get phi_t i) (\<lambda>phi_i.
                 rbind (py_get pi_t i) (\<lambda>pi_i.
                 rbind (omega_term i phi_i pi_i) (\<lambda>x. Inr (Kahan_add acc x)))))
       Kahan_init (py_range 2 (n + 1))"

text \<open>
  The state of the generator after the pass for \<open>m\<close>: its accumulators are those of the
  scalar evaluators at \<open>m\<close>, and the three values are read from them.
\<close>

definition stream_inv :: "int list \<Rightarrow> int list \<Rightarrow> int \<Rightarrow> stream_state \<Rightarrow> bool" where
  "stream_inv phi_t pi_t m st \<longleftrightarrow>
     xi_acc_upto m = Inr (xi_acc st) \<and> e_acc_upto m = Inr (e_acc st) \<and>
     om_acc_upto phi_t pi_t m = Inr (om_acc st) \<and>
     xi_val st = Kahan_value (xi_acc st) \<and> e_val st = Kahan_value (e_acc st) \<and>
     om_val st = Kahan_value (om_acc st)"

text \<open>
  What a run of the generator over the indices \<open>k..N\<close> is: the record number \<open>j\<close> is the one
  for \<open>k + j\<close> and holds the scalar evaluators' values; the run either covers the range, or
  ends at an index where \<open>Omega\<close> raises the same exception.
\<close>

definition stream_result_ok ::
  "int list \<Rightarrow> int list \<Rightarrow> int \<Rightarrow> int \<Rightarrow> prefix_record list \<times> py_error option \<Rightarrow> bool" where
  "stream_result_ok phi_t pi_t k N res \<longleftrightarrow>
     (case res of (rs, err) \<Rightarrow>
        (\<forall>j < length rs. \<exists>x om e.
            rs ! j = (k + int j, x, om, e, x + om - e) \<and>
            Xi (k + int j) = Inr x \<and> Omega (k + int j) phi_t pi_t = Inr om \<and>
            E (k + int j) = Inr e) \<and>
        (case err of
           None \<Rightarrow> int (length rs) = max 0 (N + 1 - k)
         | Some e \<Rightarrow> Omega (k + int (length rs)) phi_t pi_t = Inl e \<and>
                     2 \<le> k + int (length rs) \<and> k + int (length rs) \<le> N))"

text \<open>
  Tables adequate for \<open>N\<close>: both cover the indices \<open>0..N\<close>, and no denominator
  \<open>\<phi>(i) + \<pi>(i)\<close> with \<open>2 \<le> i \<le> N\<close> is zero.
\<close>

definition adequate :: "int \<Rightarrow> int list \<Rightarrow> int list \<Rightarrow> bool" where
  "adequate N phi_t pi_t \<longleftrightarrow>
     N + 1 \<le> int (length phi_t) \<and> N + 1 \<le> int (length pi_t) \<and>
     (\<forall>i \<in> {2..N}. phi_t ! nat i + pi_t ! nat i \<noteq> 0)"

section \<open>Auxiliary notions for the proofs about the sieves\<close>

text \<open>
  The count of the integers in \<open>[1, M]\<close> that no member of \<open>P\<close> divides, and the value the
  totient sieve holds at the index \<open>j\<close> once the primes below \<open>m\<close> have been handled.
\<close>

definition sifted_count :: "nat set \<Rightarrow> nat \<Rightarrow> nat" where
  "sifted_count P M = card {k \<in> {1..M}. \<forall>q \<in> P. \<not> q dvd k}"

definition partial_totient :: "nat \<Rightarrow> nat \<Rightarrow> nat" where
  "partial_totient m j = sifted_count {q. is_prime_number q \<and> q < m \<and> q dvd j} j"

text \<open>The invariant of the outer loop of \<open>sieve_phi\<close>, before the pass for \<open>m\<close>.\<close>

definition phi_inv :: "int \<Rightarrow> nat \<Rightarrow> int list \<Rightarrow> bool" where
  "phi_inv N m phi_t \<longleftrightarrow>
     length phi_t = nat (N + 1) \<and> (\<forall>k \<le> nat N. phi_t ! k = int (partial_totient m k))"

text \<open>
  The invariant of the \<^verbatim>\<open>while\<close> loop of \<open>sieve_primes_bool\<close> at the value \<open>p\<close>: the entry
  \<open>k\<close> is still true exactly when \<open>k \<ge> 2\<close> and no prime \<open>q < p\<close> with \<open>q\<^sup>2 \<le> k\<close> divides \<open>k\<close>.
\<close>

definition sieve_inv :: "int \<Rightarrow> int \<Rightarrow> bool list \<Rightarrow> bool" where
  "sieve_inv N p is_prime \<longleftrightarrow>
     length is_prime = nat (N + 1) \<and>
     (\<forall>k \<le> nat N. is_prime ! k \<longleftrightarrow>
        2 \<le> k \<and> \<not> (\<exists>q. is_prime_number q \<and> int q < p \<and> q dvd k \<and> q * q \<le> k))"

text \<open>The state \<open>(pi, cnt)\<close> of the loop of \<open>sieve_pi\<close> after the pass for \<open>m\<close>.\<close>

definition pi_inv :: "int \<Rightarrow> nat \<Rightarrow> int list \<times> int \<Rightarrow> bool" where
  "pi_inv N m st \<longleftrightarrow>
     length (fst st) = nat (N + 1) \<and> snd st = int (prime_count m) \<and>
     (\<forall>k \<le> m. fst st ! k = int (prime_count k))"

text \<open>
  The dictionary \<^verbatim>\<open>vals\<close> of \<open>compute_values\<close> after the record for \<open>j\<close>: its keys are the
  needed indices among \<open>1..j\<close>, each once.
\<close>

definition capture_inv :: "int set \<Rightarrow> int \<Rightarrow> vals_dict \<Rightarrow> bool" where
  "capture_inv need j vals \<longleftrightarrow>
     distinct (map fst vals) \<and> fst ` set vals = need \<inter> {1..j}"

section \<open>The compensated accumulator in exact arithmetic\<close>

lemma Kahan_add_exact:
  "c k = 0 \<Longrightarrow>
   c (Kahan_add k x) = 0 \<and> s (Kahan_add k x) = s k + x \<and> Kahan.more (Kahan_add k x) = Kahan.more k"
  by (simp add: Kahan_add_def Let_def)

lemma Kahan_foldl_exact:
  "c k = 0 \<Longrightarrow>
   c (foldl Kahan_add k xs) = 0 \<and> Kahan_value (foldl Kahan_add k xs) = s k + sum_list xs
     \<and> Kahan.more (foldl Kahan_add k xs) = Kahan.more k"
proof (induction xs arbitrary: k)
  case Nil
  then show ?case by (simp add: Kahan_value_def)
next
  case (Cons x xs)
  from Cons.prems have a: "c (Kahan_add k x) = 0" "s (Kahan_add k x) = s k + x"
    "Kahan.more (Kahan_add k x) = Kahan.more k"
    using Kahan_add_exact[of k x] by simp_all
  from Cons.IH[OF a(1)] a show ?case by (simp add: add.assoc)
qed

text \<open>
  C10. In exact arithmetic, after any finite sequence of \<open>add\<close> calls from the initial
  state \<open>(s = 0, c = 0)\<close> the compensation \<open>c\<close> is 0 and \<open>value()\<close> is the sum of the inputs.
  An \<open>add\<close> changes the fields \<open>s\<close> and \<open>c\<close> only: whatever else the object carries (the
  extension \<open>more\<close> of the record) is as before. The accumulator starts as any extension
  \<open>z\<close> of the initial state.
\<close>

theorem Kahan_exact_sum:
  "c (foldl Kahan_add (Kahan.extend Kahan_init z) xs) = 0 \<and>
   Kahan_value (foldl Kahan_add (Kahan.extend Kahan_init z) xs) = sum_list xs \<and>
   Kahan.more (foldl Kahan_add (Kahan.extend Kahan_init z) xs) = z \<and>
   Kahan.more (Kahan_add k x) = Kahan.more k"
proof -
  have "c (Kahan.extend Kahan_init z) = 0" "s (Kahan.extend Kahan_init z) = 0"
    "Kahan.more (Kahan.extend Kahan_init z) = z"
    by (simp_all add: Kahan_init_def Kahan.defs)
  moreover have "Kahan.more (Kahan_add k x) = Kahan.more k"
    by (simp add: Kahan_add_def Let_def)
  ultimately show ?thesis
    using Kahan_foldl_exact[of "Kahan.extend Kahan_init z" xs] by simp
qed

section \<open>The tail bounds\<close>

lemma ln3_ge1: "1 \<le> ln (3::real)"
proof -
  have "ln (exp 1) \<le> ln (3::real)" by (subst ln_le_cancel_iff) (simp_all add: exp_le)
  then show ?thesis by simp
qed

lemma ln_real_ge1: "3 \<le> x \<Longrightarrow> 1 \<le> ln (x::real)"
proof -
  assume "3 \<le> x"
  then have "ln (3::real) \<le> ln x" by (subst ln_le_cancel_iff) simp_all
  with ln3_ge1 show ?thesis by linarith
qed




lemma e_gamma_bounds: "0 < e_gamma \<and> e_gamma < 10"
proof -
  have "(2.718281828459045::real) powr EULER_GAMMA \<le> 2.718281828459045 powr 1"
    by (rule powr_mono) (simp_all add: EULER_GAMMA_def)
  then show ?thesis by (simp add: e_gamma_def)
qed




lemma xi_tail_bound_eq: "xi_tail_bound n = Inr (2 / (real_of_int (max n 2))\<^sup>2)"
  by (simp add: xi_tail_bound_def py_fdiv_def Let_def power2_eq_square max_def)

lemma e_tail_bound_eq:
  "e_tail_bound n = Inr ((ln (real_of_int (max n 2)) + 1) / (real_of_int (max n 2) * ln 2))"
  by (simp add: e_tail_bound_def py_fdiv_def py_log_def rbind_def Let_def max_def)

lemma ln_clamp3_pos: "0 < ln (real_of_int (max n 3))"
proof -
  have "(3::real) \<le> real_of_int (max n 3)" by simp
  from ln_real_ge1[OF this] show ?thesis by linarith
qed

lemma omega_tail_bound_eq:
  "omega_tail_bound n D = Inr ((e_gamma * ln (ln (real_of_int (max n 3))) + D) / real_of_int (max n 3))"
proof -
  have "0 < real_of_int (max n 3)" by simp
  with ln_clamp3_pos[of n] show ?thesis
    unfolding omega_tail_bound_def py_fdiv_def py_log_def rbind_def Let_def e_gamma_def
    by (simp del: of_int_max)
qed

lemma triad_tail_bound_eq:
  "triad_tail_bound n D = Inr
     (2 / (real_of_int (max n 2))\<^sup>2,
      (ln (real_of_int (max n 2)) + 1) / (real_of_int (max n 2) * ln 2),
      (e_gamma * ln (ln (real_of_int (max n 3))) + D) / real_of_int (max n 3),
      2 / (real_of_int (max n 2))\<^sup>2
        + (ln (real_of_int (max n 2)) + 1) / (real_of_int (max n 2) * ln 2)
        + (e_gamma * ln (ln (real_of_int (max n 3))) + D) / real_of_int (max n 3))"
  unfolding triad_tail_bound_def xi_tail_bound_eq e_tail_bound_eq omega_tail_bound_eq rbind_def
  by simp


lemma RXi_pos: "2 \<le> x \<Longrightarrow> 0 < RXi x" by (simp add: RXi_def)

lemma RE_pos: "2 \<le> x \<Longrightarrow> 0 < RE x"
proof -
  assume a: "2 \<le> x"
  then have "0 \<le> ln x" by simp
  then have "0 < ln x + 1" by linarith
  moreover have "0 < x * ln 2" using a by simp
  ultimately show ?thesis unfolding RE_def by (rule divide_pos_pos)
qed



lemma ROm_pos: assumes "3 \<le> x" "0 < D" shows "0 < ROm D x"
proof -
  have "1 \<le> ln x" using ln_real_ge1 assms by simp
  then have "0 \<le> ln (ln x)" by simp
  then have "0 \<le> e_gamma * ln (ln x)" using e_gamma_bounds by simp
  then have "0 < e_gamma * ln (ln x) + D" using assms by linarith
  moreover have "0 < x" using assms by linarith
  ultimately show ?thesis unfolding ROm_def by (rule divide_pos_pos)
qed



lemma triad_tail_bound_R:
  "triad_tail_bound n D = Inr
     (RXi (real_of_int (max n 2)), RE (real_of_int (max n 2)), ROm D (real_of_int (max n 3)),
      RXi (real_of_int (max n 2)) + RE (real_of_int (max n 2)) + ROm D (real_of_int (max n 3)))"
  unfolding triad_tail_bound_eq RXi_def RE_def ROm_def ..




section \<open>The conversion of an integer to a float\<close>

text \<open>
  Below \<open>2\<^sup>5\<^sup>3\<close> the conversion is the identity. From there on the integer \<open>a\<close> is
  \<open>q u + r\<close> with the unit \<open>u\<close> a power of two, \<open>2\<^sup>5\<^sup>2 \<le> q < 2\<^sup>5\<^sup>3\<close> and \<open>0 \<le> r < u\<close>, and the
  result is \<open>q u\<close> or \<open>(q + 1) u\<close>.
\<close>

lemma round53_small: "\<bar>k\<bar> < 2 ^ 53 \<Longrightarrow> round53 k = k"
  by (simp add: round53_def)

lemma round53_frame:
  assumes a: "2 ^ 53 \<le> a"
  obtains e q r :: int and u :: int where
    "1 \<le> e" "bitlen a = 53 + e" "u = 2 ^ nat e" "a = q * u + r" "0 \<le> r" "r < u"
    "2 ^ 52 \<le> q" "q < 2 ^ 53"
    "round53 a = (if 2 * r < u \<or> (2 * r = u \<and> even q) then q else q + 1) * u"
proof -
  from a have pos: "0 < a" by (rule less_le_trans[rotated]) simp
  define b where "b = bitlen a"
  from bitlen_bounds[OF pos] have bb: "2 ^ nat (b - 1) \<le> a" "a < 2 ^ nat b"
    by (simp_all add: b_def)
  have b54: "54 \<le> b"
  proof (rule ccontr)
    assume "\<not> 54 \<le> b"
    then have "nat b \<le> 53" by simp
    then have "(2::int) ^ nat b \<le> 2 ^ 53" by (intro power_increasing) simp_all
    with bb(2) a show False by simp
  qed
  define e where "e = b - 53"
  define u :: int where "u = 2 ^ nat e"
  define q where "q = a div u"
  define r where "r = a mod u"
  have e1: "1 \<le> e" using b54 by (simp add: e_def)
  have upos: "0 < u" by (simp add: u_def)
  have split: "a = q * u + r" by (simp add: q_def r_def)
  have r: "0 \<le> r" "r < u" using upos by (simp_all add: r_def)
  have pb: "(2::int) ^ nat b = 2 ^ 53 * u"
  proof -
    have "nat b = 53 + nat e" using b54 by (simp add: e_def)
    then show ?thesis by (simp add: u_def power_add)
  qed
  have pb1: "(2::int) ^ nat (b - 1) = 2 ^ 52 * u"
  proof -
    have "nat (b - 1) = 52 + nat e" using b54 by (simp add: e_def)
    then show ?thesis by (simp add: u_def power_add)
  qed
  have q_hi: "q < 2 ^ 53"
  proof (rule ccontr)
    assume "\<not> q < 2 ^ 53"
    then have "2 ^ 53 * u \<le> q * u" using upos by (intro mult_right_mono) simp_all
    also have "\<dots> \<le> a" using split r(1) by simp
    finally show False using bb(2) pb by simp
  qed
  have q_lo: "2 ^ 52 \<le> q"
  proof (rule ccontr)
    assume "\<not> 2 ^ 52 \<le> q"
    then have "q + 1 \<le> 2 ^ 52" by simp
    then have "(q + 1) * u \<le> 2 ^ 52 * u" using upos by (intro mult_right_mono) simp_all
    moreover have "a < (q + 1) * u" using split r(2) by (simp add: algebra_simps)
    ultimately show False using bb(1) pb1 by simp
  qed
  have rd: "round53 a = (if 2 * r < u \<or> (2 * r = u \<and> even q) then q else q + 1) * u"
  proof -
    from a pos have "\<bar>a\<bar> = a" "\<not> \<bar>a\<bar> < 2 ^ 53" "sgn a = 1" by simp_all
    then show ?thesis
      unfolding round53_def Let_def
      by (simp only: if_False) (simp add: b_def[symmetric] e_def[symmetric] u_def[symmetric]
          q_def[symmetric] r_def[symmetric])
  qed
  have be: "bitlen a = 53 + e" by (simp add: b_def e_def)
  show ?thesis
    by (rule that[of e u q r]) (fact e1 be u_def split r q_lo q_hi rd)+
qed

lemma round53_exact_upto: "0 \<le> a \<Longrightarrow> a \<le> 2 ^ 53 \<Longrightarrow> round53 a = a"
proof (cases "a < 2 ^ 53")
  case True
  moreover assume "0 \<le> a"
  ultimately show ?thesis by (simp add: round53_small)
next
  case False
  assume "a \<le> 2 ^ 53"
  with False have a: "2 ^ 53 \<le> a" "a \<le> 2 ^ 53" by simp_all
  from round53_frame[OF a(1)] obtain e q r u where
    f: "1 \<le> e" "u = 2 ^ nat e" "a = q * u + r" "0 \<le> r" "2 ^ 52 \<le> q"
    and rd: "round53 a = (if 2 * r < u \<or> (2 * r = u \<and> even q) then q else q + 1) * (u::int)"
    by metis
  have "(2::int) ^ 1 \<le> 2 ^ nat e" using f(1) by (intro power_increasing) simp_all
  then have u2: "2 \<le> u" by (simp add: f(2))
  have "2 ^ 52 * 2 \<le> q * u" using f(5) u2 by (intro mult_mono) simp_all
  with a(2) f(3,4) have "r = 0" by simp
  with rd u2 f(3) show ?thesis by simp
qed

lemma round53_bounds:
  assumes "2 ^ 53 \<le> a"
  shows "2 ^ 53 \<le> round53 a"
proof -
  from round53_frame[OF assms] obtain e q r u where
    f: "1 \<le> e" "u = 2 ^ nat e" "2 ^ 52 \<le> q"
    "round53 a = (if 2 * r < u \<or> (2 * r = u \<and> even q) then q else q + 1) * (u::int)" by metis
  have "(2::int) ^ 1 \<le> 2 ^ nat e" using f(1) by (intro power_increasing) simp_all
  then have u2: "2 \<le> u" by (simp add: f(2))
  have "q * u \<le> round53 a" using u2 by (simp add: f(4) mult_right_mono)
  moreover have "2 ^ 52 * 2 \<le> q * u" using f(3) u2 by (intro mult_mono) simp_all
  ultimately show ?thesis by simp
qed

lemma round53_ge:
  assumes "0 \<le> b" "b \<le> 2 ^ 53" "b \<le> a"
  shows "b \<le> round53 a"
proof (cases "a < 2 ^ 53")
  case True
  with assms have "\<bar>a\<bar> < 2 ^ 53" by simp
  with assms show ?thesis by (simp add: round53_small)
next
  case False
  then have "2 ^ 53 \<le> round53 a" by (intro round53_bounds) simp
  with assms(2) show ?thesis by simp
qed

lemma round53_overflow_iff:
  assumes "0 \<le> a"
  shows "2 ^ 1024 \<le> round53 a \<longleftrightarrow> 2 ^ 1024 - 2 ^ 970 \<le> a"
proof (cases "a < 2 ^ 53")
  case True
  with assms have "round53 a = a" by (simp add: round53_small)
  with True show ?thesis by simp
next
  case False
  then have a53: "2 ^ 53 \<le> a" by simp
  from round53_frame[OF a53] obtain e q r u where
    f: "1 \<le> e" "u = 2 ^ nat e" "a = q * u + r" "0 \<le> r" "r < u" "2 ^ 52 \<le> q" "q < 2 ^ 53"
    and rd: "round53 a = (if 2 * r < u \<or> (2 * r = u \<and> even q) then q else q + 1) * (u::int)"
    by metis
  have upos: "0 < u" by (simp add: f(2))
  have lo: "q * u \<le> round53 a" using upos by (simp add: rd mult_right_mono)
  have hi: "round53 a \<le> (q + 1) * u" using upos by (simp add: rd mult_right_mono)
  consider "972 \<le> e" | "e \<le> 970" | "e = 971" by linarith
  then show ?thesis
  proof cases
    case 1
    then have "(2::int) ^ 972 \<le> 2 ^ nat e" by (intro power_increasing) simp_all
    then have u: "2 ^ 972 \<le> u" by (simp add: f(2))
    have "(2::int) ^ 52 * 2 ^ 972 \<le> q * u" using f(6) u by (intro mult_mono) simp_all
    then have big: "(2::int) ^ 1024 \<le> q * u" by simp
    with lo have "2 ^ 1024 \<le> round53 a" by linarith
    moreover from big f(3,4) have "2 ^ 1024 - 2 ^ 970 \<le> a" by simp
    ultimately show ?thesis by simp
  next
    case 2
    with f(1) have "(2::int) ^ nat e \<le> 2 ^ 970" by (intro power_increasing) simp_all
    then have u: "u \<le> 2 ^ 970" by (simp add: f(2))
    have "(q + 1) * u \<le> 2 ^ 53 * 2 ^ 970" using f(7) u upos by (intro mult_mono) simp_all
    then have small: "(q + 1) * u \<le> 2 ^ 1023" by simp
    with hi have "\<not> 2 ^ 1024 \<le> round53 a" by simp
    moreover have "a < (q + 1) * u" using f(3,5) by (simp add: algebra_simps)
    with small have "\<not> 2 ^ 1024 - 2 ^ 970 \<le> a" by simp
    ultimately show ?thesis by simp
  next
    case 3
    then have u: "u = 2 ^ 971" by (simp add: f(2))
    show ?thesis
    proof (cases "q = 2 ^ 53 - 1")
      case True
      then have odd: "odd q" by simp
      have "2 ^ 1024 \<le> round53 a \<longleftrightarrow> \<not> (2 * r < u \<or> (2 * r = u \<and> even q))"
        unfolding rd using True u by simp
      also have "\<dots> \<longleftrightarrow> 2 ^ 970 \<le> r" using odd u by auto
      also have "\<dots> \<longleftrightarrow> 2 ^ 1024 - 2 ^ 970 \<le> a" unfolding f(3) True u by simp
      finally show ?thesis .
    next
      case False
      with f(7) have q: "q + 1 \<le> 2 ^ 53 - 1" by simp
      then have "(q + 1) * u \<le> (2 ^ 53 - 1) * u" using upos by (intro mult_right_mono) simp_all
      then have small: "(q + 1) * u \<le> 2 ^ 1024 - 2 ^ 971" unfolding u by simp
      with hi have "\<not> 2 ^ 1024 \<le> round53 a" by simp
      moreover have "a < (q + 1) * u" using f(3,5) by (simp add: algebra_simps)
      with small have "\<not> 2 ^ 1024 - 2 ^ 970 \<le> a" by simp
      ultimately show ?thesis by simp
    qed
  qed
qed

lemma round53_error:
  assumes "0 \<le> a"
  shows "\<bar>round53 a - a\<bar> * 2 ^ 53 \<le> a"
proof (cases "a < 2 ^ 53")
  case True
  with assms have "round53 a = a" by (simp add: round53_small)
  with assms show ?thesis by simp
next
  case False
  then have a53: "2 ^ 53 \<le> a" by simp
  from round53_frame[OF a53] obtain e q r u where
    f: "a = q * u + r" "0 \<le> r" "r < u" "2 ^ 52 \<le> q"
    and rd: "round53 a = (if 2 * r < u \<or> (2 * r = u \<and> even q) then q else q + 1) * (u::int)"
    by metis
  have upos: "0 < u" using f(2,3) by linarith
  have "2 ^ 52 * u \<le> q * u" using f(4) upos by (intro mult_right_mono) simp_all
  then have big: "2 ^ 52 * u \<le> a" using f(1,2) by linarith
  have "\<bar>round53 a - a\<bar> * 2 \<le> u"
  proof (cases "2 * r < u \<or> (2 * r = u \<and> even q)")
    case True
    then have "round53 a = q * u" unfolding rd by (simp only: if_True)
    then have "round53 a - a = - r" using f(1) by simp
    with True f(2) show ?thesis by auto
  next
    case False
    then have "round53 a = (q + 1) * u" unfolding rd by (simp only: if_False)
    then have "round53 a - a = u - r" using f(1) by (simp add: algebra_simps)
    with False f(3) show ?thesis by auto
  qed
  then have "\<bar>round53 a - a\<bar> * 2 * 2 ^ 52 \<le> u * 2 ^ 52" by (intro mult_right_mono) simp_all
  with big show ?thesis by simp
qed

section \<open>The tail bounds with the conversions written out\<close>

text \<open>The value of the factor \<^verbatim>\<open>pow(2.718281828459045, EULER_GAMMA)\<close>.\<close>

lemma powr_ratio_lower:
  fixes x y :: real
  assumes "0 < x" "0 \<le> y" "y ^ q < x ^ p" "0 < q"
  shows "y < x powr (real p / real q)"
proof -
  have "(x powr (real p / real q)) ^ q = (x powr (real p / real q)) powr real q"
    using assms(1) by (simp add: powr_realpow)
  also have "\<dots> = x powr real p" using assms(4) by (simp add: powr_powr)
  also have "\<dots> = x ^ p" using assms(1) by (simp add: powr_realpow)
  finally have "y ^ q < (x powr (real p / real q)) ^ q" using assms(3) by simp
  then show ?thesis by (rule power_less_imp_less_base) simp
qed

lemma powr_ratio_upper:
  fixes x y :: real
  assumes "0 < x" "0 \<le> y" "x ^ p < y ^ q" "0 < q"
  shows "x powr (real p / real q) < y"
proof -
  have "(x powr (real p / real q)) ^ q = (x powr (real p / real q)) powr real q"
    using assms(1) by (simp add: powr_realpow)
  also have "\<dots> = x powr real p" using assms(4) by (simp add: powr_powr)
  also have "\<dots> = x ^ p" using assms(1) by (simp add: powr_realpow)
  finally have "(x powr (real p / real q)) ^ q < y ^ q" using assms(3) by simp
  then show ?thesis using assms(2) by (rule power_less_imp_less_base)
qed

lemma e_gamma_value:
  "1.7805 < (2.718281828459045::real) powr 0.5772156649015329"
  "(2.718281828459045::real) powr 0.5772156649015329 < 1.7816"
proof -
  have "(1.7805::real) ^ 26 < 2.71828 ^ 15" by (simp add: power_divide)
  then have "1.7805 < (2.71828::real) powr (real 15 / real 26)"
    by (intro powr_ratio_lower) simp_all
  also have "\<dots> \<le> (2.718281828459045::real) powr (real 15 / real 26)"
    by (intro powr_mono2) simp_all
  also have "\<dots> \<le> (2.718281828459045::real) powr 0.5772156649015329"
    by (intro powr_mono) simp_all
  finally show "1.7805 < (2.718281828459045::real) powr 0.5772156649015329" .
  have "(2.7183::real) ^ 41 < 1.7816 ^ 71" by (simp add: power_divide)
  then have up: "(2.7183::real) powr (real 41 / real 71) < 1.7816"
    by (intro powr_ratio_upper) simp_all
  have "(2.718281828459045::real) powr 0.5772156649015329 \<le> 2.718281828459045 powr (real 41 / real 71)"
    by (intro powr_mono) simp_all
  also have "\<dots> \<le> (2.7183::real) powr (real 41 / real 71)"
    by (intro powr_mono2) simp_all
  finally show "(2.718281828459045::real) powr 0.5772156649015329 < 1.7816" using up by simp
qed

lemma py_float_nonneg:
  assumes "0 \<le> a"
  shows "py_float a =
    (if float_limit \<le> a then Inl OverflowError else Inr (real_of_int (round53 a)))"
proof -
  have "0 \<le> round53 a" by (rule round53_ge) (use assms in simp_all)
  then have "\<bar>round53 a\<bar> = round53 a" by simp
  then show ?thesis
    unfolding py_float_def float_limit_def using round53_overflow_iff[OF assms] by simp
qed

lemma clamp_facts:
  "2 \<le> max n 2" "4 \<le> max n 2 * max n 2" "3 \<le> max n 3"
  "max n 2 \<le> max n 2 * max n 2" "max n 3 \<le> max n 2 * max n 2" for n :: int
proof -
  show 2: "2 \<le> max n 2" and 3: "3 \<le> max n 3" by simp_all
  from 2 have "2 * 2 \<le> max n 2 * max n 2" by (intro mult_mono) simp_all
  then show 4: "4 \<le> max n 2 * max n 2" by simp
  from 2 have "max n 2 * 1 \<le> max n 2 * max n 2" by (intro mult_left_mono) simp_all
  then show le: "max n 2 \<le> max n 2 * max n 2" by simp
  show "max n 3 \<le> max n 2 * max n 2"
  proof (cases "n \<le> 2")
    case True
    then have "max n 3 = 3" "max n 2 = 2" by simp_all
    then show ?thesis by simp
  next
    case False
    then have "max n 3 = max n 2" by simp
    with le show ?thesis by simp
  qed
qed

lemma xi_tail_bound_conv_eq:
  "xi_tail_bound_conv n =
     (if float_limit \<le> max n 2 * max n 2 then Inl OverflowError
      else Inr (2 / real_of_int (round53 (max n 2 * max n 2))))"
proof -
  define mm where "mm = max n 2 * max n 2"
  have mm4: "4 \<le> mm" unfolding mm_def by (rule clamp_facts)
  then have "0 \<le> mm" by simp
  note f = py_float_nonneg[OF this]
  have "4 \<le> round53 mm" by (rule round53_ge) (use mm4 in simp_all)
  then have "real_of_int (round53 mm) \<noteq> 0" by simp
  then show ?thesis
    unfolding xi_tail_bound_conv_def Let_def mm_def[symmetric] f
    by (simp add: rbind_def py_fdiv_def)
qed

lemma e_tail_bound_conv_eq:
  "e_tail_bound_conv n =
     (if float_limit \<le> max n 2 then Inl OverflowError
      else Inr (RE (real_of_int (round53 (max n 2)))))"
proof -
  define m where "m = max n 2"
  have m2: "2 \<le> m" unfolding m_def by simp
  then have "0 \<le> m" by simp
  note f = py_float_nonneg[OF this]
  have l: "py_log_int m = Inr (ln (real_of_int (round53 m)))"
    using m2 by (simp add: py_log_int_def)
  have "2 \<le> round53 m" by (rule round53_ge) (use m2 in simp_all)
  then have "real_of_int (round53 m) \<noteq> 0" by simp
  then show ?thesis
    unfolding e_tail_bound_conv_def Let_def m_def[symmetric] f l RE_def
    by (simp add: rbind_def py_fdiv_def py_log_def)
qed

lemma round53_clamp3: "(3::real) \<le> real_of_int (round53 (max n 3))"
proof -
  have "3 \<le> round53 (max n 3)" by (rule round53_ge) simp_all
  then show ?thesis by simp
qed

lemma omega_tail_bound_conv_eq:
  "omega_tail_bound_conv n D =
     (if float_limit \<le> max n 3 then Inl OverflowError
      else Inr (ROm D (real_of_int (round53 (max n 3)))))"
proof -
  define k where "k = max n 3"
  have k3: "3 \<le> k" unfolding k_def by simp
  then have "0 \<le> k" by simp
  note f = py_float_nonneg[OF this]
  have l: "py_log_int k = Inr (ln (real_of_int (round53 k)))"
    using k3 by (simp add: py_log_int_def)
  have r3: "(3::real) \<le> real_of_int (round53 k)" unfolding k_def by (rule round53_clamp3)
  from ln_real_ge1[OF r3] have l2: "py_log (ln (real_of_int (round53 k))) =
            Inr (ln (ln (real_of_int (round53 k))))"
    by (simp add: py_log_def)
  from r3 have "real_of_int (round53 k) \<noteq> 0" by simp
  then show ?thesis
    unfolding omega_tail_bound_conv_def Let_def k_def[symmetric] f l ROm_def
    by (simp add: rbind_def l2 py_fdiv_def e_gamma_def)
qed

lemma triad_tail_bound_conv_eq:
  "triad_tail_bound_conv n D =
     (if float_limit \<le> max n 2 * max n 2 then Inl OverflowError
      else Inr (2 / real_of_int (round53 (max n 2 * max n 2)),
                RE (real_of_int (round53 (max n 2))),
                ROm D (real_of_int (round53 (max n 3))),
                2 / real_of_int (round53 (max n 2 * max n 2))
                  + RE (real_of_int (round53 (max n 2)))
                  + ROm D (real_of_int (round53 (max n 3)))))"
proof -
  define mm where "mm = max n 2 * max n 2"
  define m where "m = max n 2"
  define k where "k = max n 3"
  have le: "m \<le> mm" "k \<le> mm" unfolding m_def k_def mm_def by (rule clamp_facts)+
  show ?thesis
  proof (cases "float_limit \<le> mm")
    case True
    then show ?thesis
      unfolding triad_tail_bound_conv_def xi_tail_bound_conv_eq mm_def[symmetric]
      by (simp add: rbind_def)
  next
    case False
    with le have "\<not> float_limit \<le> m" "\<not> float_limit \<le> k" by linarith+
    with False show ?thesis
      unfolding triad_tail_bound_conv_def xi_tail_bound_conv_eq e_tail_bound_conv_eq
        omega_tail_bound_conv_eq mm_def[symmetric] m_def[symmetric] k_def[symmetric]
      by (simp add: rbind_def)
  qed
qed

lemma float_limit_gt: "2 ^ 53 < float_limit"
  by (simp add: float_limit_def)

lemma exact_range:
  assumes "max n 2 * max n 2 \<le> 2 ^ 53"
  shows "round53 (max n 2 * max n 2) = max n 2 * max n 2"
    "round53 (max n 2) = max n 2" "round53 (max n 3) = max n 3"
    "\<not> float_limit \<le> max n 2 * max n 2"
proof -
  note c = clamp_facts[of n]
  show "round53 (max n 2 * max n 2) = max n 2 * max n 2"
    by (rule round53_exact_upto) (use c assms in linarith)+
  show "round53 (max n 2) = max n 2"
    by (rule round53_exact_upto) (use c assms in linarith)+
  show "round53 (max n 3) = max n 3"
    by (rule round53_exact_upto) (use c assms in linarith)+
  show "\<not> float_limit \<le> max n 2 * max n 2" using assms float_limit_gt by linarith
qed




text \<open>
  C2, as it holds of the code: for every integer \<open>n\<close> and every \<open>D\<close>, with \<open>m = max n 2\<close>,
  \<open>k = max n 3\<close> and \<open>fl\<close> the conversion of an integer to a float (\<open>round53\<close>),
  \<^verbatim>\<open>triad_tail_bound(n, D)\<close>, embedded with its conversions as \<open>triad_tail_bound_conv\<close>,
  raises \<^verbatim>\<open>OverflowError\<close> when \<open>m\<^sup>2 \<ge> 2\<^sup>1\<^sup>0\<^sup>2\<^sup>4 - 2\<^sup>9\<^sup>7\<^sup>0\<close>, and otherwise returns the
  four-tuple \<open>(R_\<Xi>, R_E, R_\<Omega>, R_total)\<close> with \<open>R_\<Xi> = 2 / fl(m\<^sup>2)\<close>,
  \<open>R_E = (ln (fl m) + 1) / (fl m ln 2)\<close>,
  \<open>R_\<Omega> = (2.718281828459045\<^bsup>0.5772156649015329\<^esup> ln (ln (fl k)) + D) / fl k\<close> and \<open>R_total\<close> their
  sum. The inner logarithm is taken of \<open>ln (fl k)\<close>, which is positive. The conversions
  are the identity when \<open>m\<^sup>2 \<le> 2\<^sup>5\<^sup>3\<close>, so that there the tuple is the one of the formulas at
  \<open>m\<close> and \<open>k\<close>, and always within the relative error \<open>2\<^bsup>-53\<^esup>\<close>. The factor of \<open>R_\<Omega>\<close>
  lies between 1.7805 and 1.7816, as \<open>e\<^sup>\<gamma> = 1.7810\<dots>\<close> does.
\<close>

theorem triad_tail_bound_conv_formula:
  "triad_tail_bound_conv n D =
     (if 2 ^ 1024 - 2 ^ 970 \<le> max n 2 * max n 2 then Inl OverflowError
      else Inr (2 / real_of_int (round53 (max n 2 * max n 2)),
                (ln (real_of_int (round53 (max n 2))) + 1)
                  / (real_of_int (round53 (max n 2)) * ln 2),
                ((2.718281828459045 powr 0.5772156649015329)
                    * ln (ln (real_of_int (round53 (max n 3)))) + D)
                  / real_of_int (round53 (max n 3)),
                2 / real_of_int (round53 (max n 2 * max n 2))
                  + (ln (real_of_int (round53 (max n 2))) + 1)
                      / (real_of_int (round53 (max n 2)) * ln 2)
                  + ((2.718281828459045 powr 0.5772156649015329)
                        * ln (ln (real_of_int (round53 (max n 3)))) + D)
                      / real_of_int (round53 (max n 3))))
   \<and> 0 < ln (real_of_int (round53 (max n 3)))
   \<and> (max n 2 * max n 2 \<le> 2 ^ 53 \<longrightarrow>
        round53 (max n 2 * max n 2) = max n 2 * max n 2 \<and> round53 (max n 2) = max n 2 \<and>
        round53 (max n 3) = max n 3)
   \<and> \<bar>round53 (max n 2 * max n 2) - max n 2 * max n 2\<bar> * 2 ^ 53 \<le> max n 2 * max n 2
   \<and> \<bar>round53 (max n 2) - max n 2\<bar> * 2 ^ 53 \<le> max n 2
   \<and> \<bar>round53 (max n 3) - max n 3\<bar> * 2 ^ 53 \<le> max n 3
   \<and> 1.7805 < (2.718281828459045::real) powr 0.5772156649015329
   \<and> (2.718281828459045::real) powr 0.5772156649015329 < 1.7816"
proof -
  note c = clamp_facts[of n]
  have 1: "triad_tail_bound_conv n D =
     (if 2 ^ 1024 - 2 ^ 970 \<le> max n 2 * max n 2 then Inl OverflowError
      else Inr (2 / real_of_int (round53 (max n 2 * max n 2)),
                (ln (real_of_int (round53 (max n 2))) + 1)
                  / (real_of_int (round53 (max n 2)) * ln 2),
                ((2.718281828459045 powr 0.5772156649015329)
                    * ln (ln (real_of_int (round53 (max n 3)))) + D)
                  / real_of_int (round53 (max n 3)),
                2 / real_of_int (round53 (max n 2 * max n 2))
                  + (ln (real_of_int (round53 (max n 2))) + 1)
                      / (real_of_int (round53 (max n 2)) * ln 2)
                  + ((2.718281828459045 powr 0.5772156649015329)
                        * ln (ln (real_of_int (round53 (max n 3)))) + D)
                      / real_of_int (round53 (max n 3))))"
    by (rule triad_tail_bound_conv_eq[unfolded float_limit_def RE_def ROm_def e_gamma_def
          EULER_GAMMA_def])
  have 2: "0 < ln (real_of_int (round53 (max n 3)))"
    using ln_real_ge1[OF round53_clamp3[of n]] by linarith
  have 3: "max n 2 * max n 2 \<le> 2 ^ 53 \<longrightarrow>
        round53 (max n 2 * max n 2) = max n 2 * max n 2 \<and> round53 (max n 2) = max n 2 \<and>
        round53 (max n 3) = max n 3"
    using exact_range(1,2,3)[of n] by blast
  have 4: "\<bar>round53 (max n 2 * max n 2) - max n 2 * max n 2\<bar> * 2 ^ 53 \<le> max n 2 * max n 2"
    by (rule round53_error) (use c in linarith)
  have 5: "\<bar>round53 (max n 2) - max n 2\<bar> * 2 ^ 53 \<le> max n 2"
    by (rule round53_error) (use c in linarith)
  have 6: "\<bar>round53 (max n 3) - max n 3\<bar> * 2 ^ 53 \<le> max n 3"
    by (rule round53_error) (use c in linarith)
  from 1 2 3 4 5 6 e_gamma_value show ?thesis by (intro conjI)
qed

theorem triad_tail_bound_conv_formula_witness:
  "triad_tail_bound_conv 3 10 =
     Inr (2 / 9, (ln 3 + 1) / (3 * ln 2),
          ((2.718281828459045 powr 0.5772156649015329) * ln (ln 3) + 10) / 3,
          2 / 9 + (ln 3 + 1) / (3 * ln 2)
            + ((2.718281828459045 powr 0.5772156649015329) * ln (ln 3) + 10) / 3)
   \<and> round53 9 = 9 \<and> round53 3 = 3"
proof -
  have h: "max (3::int) 2 * max 3 2 \<le> 2 ^ 53" by simp
  have m: "max (3::int) 2 = 3" "max (3::int) 3 = 3" "(3::int) * 3 = 9" by simp_all
  have nl: "\<not> (2 ^ 1024 - 2 ^ 970 \<le> (9::int))" by simp
  note t = triad_tail_bound_conv_formula[of 3 10, unfolded m]
  from t h have r: "round53 9 = 9" "round53 3 = 3" by (simp_all add: m)
  from t have "triad_tail_bound_conv 3 10 =
     (if 2 ^ 1024 - 2 ^ 970 \<le> (9::int) then Inl OverflowError
      else Inr (2 / real_of_int (round53 9),
                (ln (real_of_int (round53 3)) + 1) / (real_of_int (round53 3) * ln 2),
                ((2.718281828459045 powr 0.5772156649015329)
                    * ln (ln (real_of_int (round53 3))) + 10) / real_of_int (round53 3),
                2 / real_of_int (round53 9)
                  + (ln (real_of_int (round53 3)) + 1) / (real_of_int (round53 3) * ln 2)
                  + ((2.718281828459045 powr 0.5772156649015329)
                        * ln (ln (real_of_int (round53 3))) + 10) / real_of_int (round53 3)))"
    by (rule conjunct1)
  then show ?thesis unfolding r if_not_P[OF nl] using r by simp
qed

text \<open>
  The claim C2 as worded, a four-tuple for every integer \<open>n\<close>, fails at \<open>n = 10\<^sup>1\<^sup>6\<^sup>0\<close>:
  \<^verbatim>\<open>2.0 / (n * n)\<close> cannot convert \<open>10\<^sup>3\<^sup>2\<^sup>0\<close> and the call raises.
\<close>

theorem triad_tail_bound_overflow:
  "triad_tail_bound_conv (10 ^ 160) 10 = Inl OverflowError"
proof -
  have "float_limit \<le> max (10 ^ 160) 2 * max (10 ^ 160) 2" by (simp add: float_limit_def)
  then show ?thesis unfolding triad_tail_bound_conv_eq by (simp only: if_True)
qed





section \<open>What the sieves do with a negative bound\<close>

text \<open>
  C7. For a negative \<open>N\<close> the specification asks for an input-validation error. \<open>sieve_phi\<close> and
  \<open>sieve_pi\<close> of \<^verbatim>\<open>src/triad.py\<close> return the empty table instead.
\<close>

theorem sieve_negative_returns_empty:
  "N < 0 \<Longrightarrow> sieve_phi N = [] \<and> sieve_pi N = Inr []"
  by (simp add: sieve_phi_def sieve_pi_def sieve_primes_bool_def py_range_def rbind_def)

theorem sieve_negative_returns_empty_witness:
  "sieve_phi (- 1) = [] \<and> sieve_pi (- 1) = Inr []"
  using sieve_negative_returns_empty[of "- 1"] by simp

text \<open>The variant in \<^verbatim>\<open>scripts/triad_full.py\<close> validates \<open>N\<close> first.\<close>

lemma sieve_totients_negative: "N < 0 \<Longrightarrow> sieve_totients N = Inl ValueError"
  by (simp add: sieve_totients_def)

section \<open>The \<open>\<Omega>\<close> term at a non-positive denominator\<close>

text \<open>\<open>omega_term\<close> raises exactly when the product \<open>i (\<phi> + \<pi>)\<close> is zero.\<close>

lemma omega_term_raises_iff:
  "(\<exists>e. omega_term i phi_i pi_i = Inl e) \<longleftrightarrow> i = 0 \<or> phi_i + pi_i = 0"
  by (auto simp add: omega_term_def py_fdiv_def)

text \<open>
  C8. The specification asks that the \<open>\<Omega>\<close> term halts with an error whenever \<open>\<phi>(i) + \<pi>(i) \<le> 0\<close>.
  At \<open>i = 2\<close>, \<open>\<phi>(i) = -1\<close>, \<open>\<pi>(i) = 0\<close> the function \<open>omega_term\<close> of \<^verbatim>\<open>src/triad.py\<close> returns
  the number \<open>-1/2\<close>, and the scalar evaluator and the stream pass it on.
\<close>

theorem omega_term_negative_denominator:
  "omega_term 2 (- 1) 0 = Inr (- 1 / 2) \<and>
   Omega 2 [0, 1, - 1] [0, 0, 0] = Inr (- 1 / 2) \<and>
   stream_prefix_values 2 [0, 1, - 1] [0, 0, 0] =
     ([(1, 0, 0, 0, 0), (2, 0, - 1 / 2, 1 / 4, - 3 / 4)], None)"
  by (simp add: Omega_def stream_prefix_values_def py_range_def upto_rec1 stream_body_def
      stream_init_def rbind_def py_get_def xi_term_def e_term_def py_log2_def omega_term_def
      py_fdiv_def Kahan_add_def Kahan_init_def Kahan_value_def)

text \<open>The variant in \<^verbatim>\<open>scripts/triad_full.py\<close> checks the denominator and raises.\<close>

lemma Omega_terms_negative_denominator:
  "Omega_terms 2 [0, 1, - 1] [0, 0, 0] = Inl ArithmeticError"
  by (simp add: Omega_terms_def py_range_def upto_rec1)

section \<open>The streaming prefix engine\<close>

lemma for_each_snoc:
  "for_each body st (xs @ [i]) = rbind (for_each body st xs) (\<lambda>st'. body st' i)"
  by (induction xs arbitrary: st) (auto simp: rbind_def split: sum.splits)

lemma py_range_snoc: "a \<le> n \<Longrightarrow> py_range a (n + 1) = py_range a n @ [n]"
  by (simp add: py_range_def upto_rec2)

lemma py_range_empty: "b \<le> a \<Longrightarrow> py_range a b = []"
  by (simp add: py_range_def)

lemma xi_acc_upto_low: "n < 3 \<Longrightarrow> xi_acc_upto n = Inr Kahan_init"
  by (simp add: xi_acc_upto_def py_range_empty)

lemma xi_acc_upto_step:
  "3 \<le> n \<Longrightarrow> xi_acc_upto n =
     rbind (xi_acc_upto (n - 1)) (\<lambda>acc. rbind (xi_term n) (\<lambda>x. Inr (Kahan_add acc x)))"
  by (simp add: xi_acc_upto_def py_range_snoc for_each_snoc)

lemma e_acc_upto_low: "n < 2 \<Longrightarrow> e_acc_upto n = Inr Kahan_init"
  by (simp add: e_acc_upto_def py_range_empty)

lemma e_acc_upto_step:
  "2 \<le> n \<Longrightarrow> e_acc_upto n =
     rbind (e_acc_upto (n - 1)) (\<lambda>acc. rbind (e_term n) (\<lambda>x. Inr (Kahan_add acc x)))"
  by (simp add: e_acc_upto_def py_range_snoc for_each_snoc)

lemma om_acc_upto_low: "n < 2 \<Longrightarrow> om_acc_upto phi_t pi_t n = Inr Kahan_init"
  by (simp add: om_acc_upto_def py_range_empty)

lemma om_acc_upto_step:
  "2 \<le> n \<Longrightarrow> om_acc_upto phi_t pi_t n =
     rbind (om_acc_upto phi_t pi_t (n - 1)) (\<lambda>acc.
       rbind (py_get phi_t n) (\<lambda>phi_i.
       rbind (py_get pi_t n) (\<lambda>pi_i.
       rbind (omega_term n phi_i pi_i) (\<lambda>x. Inr (Kahan_add acc x)))))"
  by (simp add: om_acc_upto_def py_range_snoc for_each_snoc)

lemma Kahan_value_init: "Kahan_value Kahan_init = 0"
  by (simp add: Kahan_value_def Kahan_init_def)

lemma Xi_acc: "Xi n = rbind (xi_acc_upto n) (\<lambda>acc. Inr (Kahan_value acc))"
proof (cases "n < 3")
  case True
  then show ?thesis by (simp add: Xi_def xi_acc_upto_low rbind_def Kahan_value_init)
next
  case False
  then show ?thesis unfolding Xi_def xi_acc_upto_def by simp
qed

lemma E_acc: "E n = rbind (e_acc_upto n) (\<lambda>acc. Inr (Kahan_value acc))"
proof (cases "n < 2")
  case True
  then show ?thesis by (simp add: E_def e_acc_upto_low rbind_def Kahan_value_init)
next
  case False
  then show ?thesis unfolding E_def e_acc_upto_def by simp
qed

lemma Omega_acc: "Omega n phi_t pi_t = rbind (om_acc_upto phi_t pi_t n) (\<lambda>acc. Inr (Kahan_value acc))"
proof (cases "n < 2")
  case True
  then show ?thesis by (simp add: Omega_def om_acc_upto_low rbind_def Kahan_value_init)
next
  case False
  then show ?thesis unfolding Omega_def om_acc_upto_def by simp
qed

lemma xi_term_ok: "3 \<le> n \<Longrightarrow> xi_term n = Inr (2 / (real_of_int (n * n) * (real_of_int n - 1)))"
  by (simp add: xi_term_def py_fdiv_def)

lemma e_term_ok: "2 \<le> n \<Longrightarrow> e_term n = Inr (log 2 (real_of_int n) / real_of_int (n * n))"
  by (simp add: e_term_def py_fdiv_def py_log2_def rbind_def)

lemma stream_inv_init: "stream_inv phi_t pi_t 0 stream_init"
  by (simp add: stream_inv_def stream_init_def xi_acc_upto_low e_acc_upto_low om_acc_upto_low Kahan_value_init)

lemma stream_body_ok:
  assumes inv: "stream_inv phi_t pi_t (n - 1) st" and ok: "stream_body phi_t pi_t st n = Inr (st', r)"
  shows "stream_inv phi_t pi_t n st' \<and>
         r = (n, xi_val st', om_val st', e_val st', xi_val st' + om_val st' - e_val st') \<and>
         Xi n = Inr (xi_val st') \<and> Omega n phi_t pi_t = Inr (om_val st') \<and> E n = Inr (e_val st')"
proof -
  from inv have X: "xi_acc_upto (n - 1) = Inr (xi_acc st)" and Ea: "e_acc_upto (n - 1) = Inr (e_acc st)"
    and O: "om_acc_upto phi_t pi_t (n - 1) = Inr (om_acc st)"
    and V: "xi_val st = Kahan_value (xi_acc st)" "e_val st = Kahan_value (e_acc st)"
           "om_val st = Kahan_value (om_acc st)"
    by (simp_all add: stream_inv_def)
  consider "n < 2" | "n = 2" | "3 \<le> n" by linarith
  then show ?thesis
  proof cases
    case 1
    with ok have "st' = st" "r = (n, xi_val st, om_val st, e_val st, xi_val st + om_val st - e_val st)"
      by (auto simp: stream_body_def rbind_def)
    moreover from 1 X Ea O have "xi_acc_upto n = Inr (xi_acc st)" "e_acc_upto n = Inr (e_acc st)"
      "om_acc_upto phi_t pi_t n = Inr (om_acc st)"
      by (simp_all add: xi_acc_upto_low e_acc_upto_low om_acc_upto_low)
    ultimately show ?thesis using V
      by (simp add: stream_inv_def Xi_acc E_acc Omega_acc rbind_def)
  next
    case 2
    from 2 X have X': "xi_acc_upto n = Inr (xi_acc st)" by (simp add: xi_acc_upto_low)
    from 2 Ea have E': "e_acc_upto n = rbind (e_term n) (\<lambda>x. Inr (Kahan_add (e_acc st) x))"
      by (simp add: e_acc_upto_step rbind_def)
    from 2 O have O': "om_acc_upto phi_t pi_t n = rbind (py_get phi_t n) (\<lambda>phi_i.
       rbind (py_get pi_t n) (\<lambda>pi_i.
       rbind (omega_term n phi_i pi_i) (\<lambda>x. Inr (Kahan_add (om_acc st) x))))"
      by (simp add: om_acc_upto_step rbind_def)
    from 2 ok show ?thesis
      unfolding stream_inv_def Xi_acc E_acc Omega_acc X' E' O'
      using V by (auto simp: stream_body_def rbind_def Let_def e_term_ok split: sum.splits)
  next
    case 3
    from 3 X have X': "xi_acc_upto n = rbind (xi_term n) (\<lambda>x. Inr (Kahan_add (xi_acc st) x))"
      by (simp add: xi_acc_upto_step rbind_def)
    from 3 Ea have E': "e_acc_upto n = rbind (e_term n) (\<lambda>x. Inr (Kahan_add (e_acc st) x))"
      by (simp add: e_acc_upto_step rbind_def)
    from 3 O have O': "om_acc_upto phi_t pi_t n = rbind (py_get phi_t n) (\<lambda>phi_i.
       rbind (py_get pi_t n) (\<lambda>pi_i.
       rbind (omega_term n phi_i pi_i) (\<lambda>x. Inr (Kahan_add (om_acc st) x))))"
      by (simp add: om_acc_upto_step rbind_def)
    from 3 ok show ?thesis
      unfolding stream_inv_def Xi_acc E_acc Omega_acc X' E' O'
      using V by (auto simp: stream_body_def rbind_def Let_def e_term_ok xi_term_ok split: sum.splits)
  qed
qed

lemma stream_body_err:
  assumes inv: "stream_inv phi_t pi_t (n - 1) st" and err: "stream_body phi_t pi_t st n = Inl e"
  shows "Omega n phi_t pi_t = Inl e \<and> 2 \<le> n"
proof -
  from inv have O: "om_acc_upto phi_t pi_t (n - 1) = Inr (om_acc st)"
    by (simp_all add: stream_inv_def)
  consider "n < 2" | "n = 2" | "3 \<le> n" by linarith
  then show ?thesis
  proof cases
    case 1
    with err show ?thesis by (auto simp: stream_body_def rbind_def)
  next
    case 2
    from 2 O have O': "om_acc_upto phi_t pi_t n = rbind (py_get phi_t n) (\<lambda>phi_i.
       rbind (py_get pi_t n) (\<lambda>pi_i.
       rbind (omega_term n phi_i pi_i) (\<lambda>x. Inr (Kahan_add (om_acc st) x))))"
      by (simp add: om_acc_upto_step rbind_def)
    from 2 err show ?thesis
      unfolding Omega_acc O'
      by (auto simp: stream_body_def rbind_def Let_def e_term_ok split: sum.splits)
  next
    case 3
    from 3 O have O': "om_acc_upto phi_t pi_t n = rbind (py_get phi_t n) (\<lambda>phi_i.
       rbind (py_get pi_t n) (\<lambda>pi_i.
       rbind (omega_term n phi_i pi_i) (\<lambda>x. Inr (Kahan_add (om_acc st) x))))"
      by (simp add: om_acc_upto_step rbind_def)
    from 3 err show ?thesis
      unfolding Omega_acc O'
      by (auto simp: stream_body_def rbind_def Let_def e_term_ok xi_term_ok split: sum.splits)
  qed
qed

lemma stream_loop_upto:
  "stream_inv phi_t pi_t (k - 1) st \<Longrightarrow>
   stream_result_ok phi_t pi_t k N (stream_loop phi_t pi_t st [k..N])"
proof (induction k N arbitrary: st rule: upto.induct)
  case (1 k N)
  show ?case
  proof (cases "k \<le> N")
    case False
    then show ?thesis by (simp add: stream_result_ok_def)
  next
    case True
    then have list: "[k..N] = k # [k + 1..N]" by (simp add: upto_rec1)
    show ?thesis
    proof (cases "stream_body phi_t pi_t st k")
      case (Inl e)
      from stream_body_err[OF "1.prems" Inl] True show ?thesis
        by (simp add: list Inl stream_result_ok_def)
    next
      case (Inr p)
      obtain st' r where p: "p = (st', r)" by (cases p)
      from stream_body_ok[OF "1.prems" Inr[unfolded p]]
      have inv': "stream_inv phi_t pi_t k st'"
        and r: "r = (k, xi_val st', om_val st', e_val st', xi_val st' + om_val st' - e_val st')"
        and sc: "Xi k = Inr (xi_val st')" "Omega k phi_t pi_t = Inr (om_val st')" "E k = Inr (e_val st')"
        by simp_all
      obtain rs err where rest: "stream_loop phi_t pi_t st' [k + 1..N] = (rs, err)"
        by (cases "stream_loop phi_t pi_t st' [k + 1..N]")
      from inv' have "stream_inv phi_t pi_t (k + 1 - 1) st'" by simp
      from "1.IH"[OF True this] rest
      have IH: "stream_result_ok phi_t pi_t (k + 1) N (rs, err)" by simp
      have res: "stream_loop phi_t pi_t st [k..N] = (r # rs, err)"
        by (simp add: list Inr p rest)
      have recs: "\<exists>x om e. (r # rs) ! j = (k + int j, x, om, e, x + om - e) \<and>
            Xi (k + int j) = Inr x \<and> Omega (k + int j) phi_t pi_t = Inr om \<and>
            E (k + int j) = Inr e" if "j < length (r # rs)" for j
      proof (cases j)
        case 0
        then show ?thesis using r sc by simp
      next
        case (Suc j')
        with that have "j' < length rs" by simp
        with IH obtain x om e where "rs ! j' = (k + 1 + int j', x, om, e, x + om - e)"
          "Xi (k + 1 + int j') = Inr x" "Omega (k + 1 + int j') phi_t pi_t = Inr om"
          "E (k + 1 + int j') = Inr e"
          unfolding stream_result_ok_def by auto
        moreover have "k + 1 + int j' = k + int j" using Suc by simp
        ultimately show ?thesis using Suc by simp
      qed
      have fin: "(case err of
           None \<Rightarrow> int (length (r # rs)) = max 0 (N + 1 - k)
         | Some e \<Rightarrow> Omega (k + int (length (r # rs))) phi_t pi_t = Inl e \<and>
                     2 \<le> k + int (length (r # rs)) \<and> k + int (length (r # rs)) \<le> N)"
      proof (cases err)
        case None
        with IH have "int (length rs) = max 0 (N + 1 - (k + 1))" by (simp add: stream_result_ok_def)
        with True None show ?thesis by simp
      next
        case (Some e)
        with IH have "Omega (k + 1 + int (length rs)) phi_t pi_t = Inl e"
          "2 \<le> k + 1 + int (length rs)" "k + 1 + int (length rs) \<le> N"
          by (simp_all add: stream_result_ok_def)
        moreover have "k + 1 + int (length rs) = k + int (length (r # rs))" by simp
        ultimately show ?thesis using Some by simp
      qed
      show ?thesis unfolding res stream_result_ok_def using recs fin by simp
    qed
  qed
qed

lemma stream_prefix_values_ok:
  "stream_result_ok phi_t pi_t 1 N (stream_prefix_values N phi_t pi_t)"
  unfolding stream_prefix_values_def py_range_def
  using stream_loop_upto[of phi_t pi_t 1 stream_init N] stream_inv_init by simp

lemma om_acc_upto_adequate:
  assumes "adequate N phi_t pi_t" "n \<le> N"
  shows "\<exists>a. om_acc_upto phi_t pi_t n = Inr a"
proof (cases "n < 2")
  case True
  then show ?thesis by (simp add: om_acc_upto_low)
next
  case False
  then have "1 \<le> n" by simp
  then have "n \<le> N \<longrightarrow> (\<exists>a. om_acc_upto phi_t pi_t n = Inr a)"
  proof (induction n rule: int_ge_induct)
    case base
    show ?case by (simp add: om_acc_upto_low)
  next
    case (step i)
    show ?case
    proof
      assume le: "i + 1 \<le> N"
      with step obtain a where a: "om_acc_upto phi_t pi_t i = Inr a" by auto
      from step le assms(1) have g: "py_get phi_t (i + 1) = Inr (phi_t ! nat (i + 1))"
        "py_get pi_t (i + 1) = Inr (pi_t ! nat (i + 1))"
        by (simp_all add: adequate_def py_get_def)
      from step le assms(1) have "phi_t ! nat (i + 1) + pi_t ! nat (i + 1) \<noteq> 0"
        by (simp add: adequate_def)
      with step have "\<exists>v. omega_term (i + 1) (phi_t ! nat (i + 1)) (pi_t ! nat (i + 1)) = Inr v"
        by (simp add: omega_term_def py_fdiv_def)
      then obtain v where v: "omega_term (i + 1) (phi_t ! nat (i + 1)) (pi_t ! nat (i + 1)) = Inr v" ..
      from step have "2 \<le> i + 1" by simp
      from om_acc_upto_step[OF this, of phi_t pi_t] a g v
      show "\<exists>a. om_acc_upto phi_t pi_t (i + 1) = Inr a" by (simp add: rbind_def)
    qed
  qed
  with assms(2) show ?thesis by simp
qed

lemma Omega_adequate:
  assumes "adequate N phi_t pi_t" "n \<le> N"
  shows "\<exists>v. Omega n phi_t pi_t = Inr v"
  using om_acc_upto_adequate[OF assms] by (auto simp: Omega_acc rbind_def)

lemma stream_adequate:
  assumes "adequate N phi_t pi_t"
  obtains rs where "stream_prefix_values N phi_t pi_t = (rs, None)"
    and "int (length rs) = max 0 N"
    and "\<And>j. j < length rs \<Longrightarrow> \<exists>x om e.
            rs ! j = (1 + int j, x, om, e, x + om - e) \<and>
            Xi (1 + int j) = Inr x \<and> Omega (1 + int j) phi_t pi_t = Inr om \<and>
            E (1 + int j) = Inr e"
proof -
  obtain rs err where res: "stream_prefix_values N phi_t pi_t = (rs, err)"
    by (cases "stream_prefix_values N phi_t pi_t")
  from stream_prefix_values_ok[of phi_t pi_t N] res
  have ok: "stream_result_ok phi_t pi_t 1 N (rs, err)" by simp
  have "err = None"
  proof (cases err)
    case None then show ?thesis .
  next
    case (Some e)
    with ok have "Omega (1 + int (length rs)) phi_t pi_t = Inl e" "1 + int (length rs) \<le> N"
      by (simp_all add: stream_result_ok_def)
    with Omega_adequate[OF assms, of "1 + int (length rs)"] show ?thesis by auto
  qed
  with ok res that show ?thesis unfolding stream_result_ok_def by auto
qed

text \<open>In exact arithmetic the accumulators of the scalar evaluators hold the prefix sums.\<close>

lemma sum_int_snoc: "a \<le> n + 1 \<Longrightarrow> (\<Sum>i = a..n + 1. f i) = (\<Sum>i = a..n. f i) + f (n + 1)" for a n :: int and f :: "int \<Rightarrow> real"
proof -
  assume a: "a \<le> n + 1"
  have "{a..n + 1} = insert (n + 1) {a..n}" using a by auto
  moreover have "n + 1 \<notin> {a..n}" by simp
  ultimately show ?thesis by (simp add: add.commute)
qed

lemma xi_acc_upto_sum:
  "\<exists>a. xi_acc_upto n = Inr a \<and> c a = 0 \<and>
       Kahan_value a = (\<Sum>i = 3..n. 2 / (real_of_int (i * i) * (real_of_int i - 1)))"
proof (cases "n < 3")
  case True
  then show ?thesis by (simp add: xi_acc_upto_low Kahan_init_def Kahan_value_def)
next
  case False
  then have "2 \<le> n" by simp
  then show ?thesis
  proof (induction n rule: int_ge_induct)
    case base
    show ?case by (simp add: xi_acc_upto_low Kahan_init_def Kahan_value_def)
  next
    case (step n)
    then obtain a where a: "xi_acc_upto n = Inr a" "c a = 0"
      "Kahan_value a = (\<Sum>i = 3..n. 2 / (real_of_int (i * i) * (real_of_int i - 1)))" by blast
    from step have n3: "3 \<le> n + 1" by simp
    let ?t = "2 / (real_of_int ((n + 1) * (n + 1)) * (real_of_int (n + 1) - 1))"
    from xi_acc_upto_step[OF n3] a(1) xi_term_ok[OF n3]
    have r: "xi_acc_upto (n + 1) = Inr (Kahan_add a ?t)" by (simp add: rbind_def)
    from Kahan_add_exact[OF a(2), of ?t] a(3)
    have "c (Kahan_add a ?t) = 0" "Kahan_value (Kahan_add a ?t) =
        (\<Sum>i = 3..n. 2 / (real_of_int (i * i) * (real_of_int i - 1))) + ?t"
      by (simp_all add: Kahan_value_def)
    moreover have "(\<Sum>i = 3..n + 1. 2 / (real_of_int (i * i) * (real_of_int i - 1))) =
        (\<Sum>i = 3..n. 2 / (real_of_int (i * i) * (real_of_int i - 1))) + ?t"
      using n3 by (rule sum_int_snoc)
    ultimately show ?case using r by simp
  qed
qed

lemma e_acc_upto_sum:
  "\<exists>a. e_acc_upto n = Inr a \<and> c a = 0 \<and>
       Kahan_value a = (\<Sum>i = 2..n. log 2 (real_of_int i) / real_of_int (i * i))"
proof (cases "n < 2")
  case True
  then show ?thesis by (simp add: e_acc_upto_low Kahan_init_def Kahan_value_def)
next
  case False
  then have "1 \<le> n" by simp
  then show ?thesis
  proof (induction n rule: int_ge_induct)
    case base
    show ?case by (simp add: e_acc_upto_low Kahan_init_def Kahan_value_def)
  next
    case (step n)
    then obtain a where a: "e_acc_upto n = Inr a" "c a = 0"
      "Kahan_value a = (\<Sum>i = 2..n. log 2 (real_of_int i) / real_of_int (i * i))" by blast
    from step have n2: "2 \<le> n + 1" by simp
    let ?t = "log 2 (real_of_int (n + 1)) / real_of_int ((n + 1) * (n + 1))"
    from e_acc_upto_step[OF n2] a(1) e_term_ok[OF n2]
    have r: "e_acc_upto (n + 1) = Inr (Kahan_add a ?t)" by (simp add: rbind_def)
    from Kahan_add_exact[OF a(2), of ?t] a(3)
    have "c (Kahan_add a ?t) = 0" "Kahan_value (Kahan_add a ?t) =
        (\<Sum>i = 2..n. log 2 (real_of_int i) / real_of_int (i * i)) + ?t"
      by (simp_all add: Kahan_value_def)
    moreover have "(\<Sum>i = 2..n + 1. log 2 (real_of_int i) / real_of_int (i * i)) =
        (\<Sum>i = 2..n. log 2 (real_of_int i) / real_of_int (i * i)) + ?t"
      using n2 by (rule sum_int_snoc)
    ultimately show ?case using r by simp
  qed
qed

lemma om_acc_upto_sum:
  assumes ad: "adequate N phi_t pi_t"
  shows "n \<le> N \<Longrightarrow> \<exists>a. om_acc_upto phi_t pi_t n = Inr a \<and> c a = 0 \<and>
       Kahan_value a = (\<Sum>i = 2..n. 1 / real_of_int (i * (phi_t ! nat i + pi_t ! nat i)))"
proof (cases "n < 2")
  case True
  then show ?thesis by (simp add: om_acc_upto_low Kahan_init_def Kahan_value_def)
next
  case False
  assume nN: "n \<le> N"
  from False have "1 \<le> n" by simp
  then have "n \<le> N \<longrightarrow> (\<exists>a. om_acc_upto phi_t pi_t n = Inr a \<and> c a = 0 \<and>
       Kahan_value a = (\<Sum>i = 2..n. 1 / real_of_int (i * (phi_t ! nat i + pi_t ! nat i))))"
  proof (induction n rule: int_ge_induct)
    case base
    show ?case by (simp add: om_acc_upto_low Kahan_init_def Kahan_value_def)
  next
    case (step n)
    show ?case
    proof
      assume le: "n + 1 \<le> N"
      with step obtain a where a: "om_acc_upto phi_t pi_t n = Inr a" "c a = 0"
        "Kahan_value a = (\<Sum>i = 2..n. 1 / real_of_int (i * (phi_t ! nat i + pi_t ! nat i)))"
        by auto
      from step have n2: "2 \<le> n + 1" by simp
      from step le ad have g: "py_get phi_t (n + 1) = Inr (phi_t ! nat (n + 1))"
        "py_get pi_t (n + 1) = Inr (pi_t ! nat (n + 1))"
        by (simp_all add: adequate_def py_get_def)
      from step le ad have "phi_t ! nat (n + 1) + pi_t ! nat (n + 1) \<noteq> 0"
        by (simp add: adequate_def)
      let ?t = "1 / real_of_int ((n + 1) * (phi_t ! nat (n + 1) + pi_t ! nat (n + 1)))"
      from \<open>phi_t ! nat (n + 1) + pi_t ! nat (n + 1) \<noteq> 0\<close> step
      have v: "omega_term (n + 1) (phi_t ! nat (n + 1)) (pi_t ! nat (n + 1)) = Inr ?t"
        by (simp add: omega_term_def py_fdiv_def)
      from om_acc_upto_step[OF n2, of phi_t pi_t] a(1) g v
      have r: "om_acc_upto phi_t pi_t (n + 1) = Inr (Kahan_add a ?t)" by (simp add: rbind_def)
      from Kahan_add_exact[OF a(2), of ?t] a(3)
      have "c (Kahan_add a ?t) = 0" "Kahan_value (Kahan_add a ?t) =
          (\<Sum>i = 2..n. 1 / real_of_int (i * (phi_t ! nat i + pi_t ! nat i))) + ?t"
        by (simp_all add: Kahan_value_def)
      moreover have "(\<Sum>i = 2..n + 1. 1 / real_of_int (i * (phi_t ! nat i + pi_t ! nat i))) =
          (\<Sum>i = 2..n. 1 / real_of_int (i * (phi_t ! nat i + pi_t ! nat i))) + ?t"
        using n2 by (rule sum_int_snoc)
      ultimately show "\<exists>a. om_acc_upto phi_t pi_t (n + 1) = Inr a \<and> c a = 0 \<and>
          Kahan_value a = (\<Sum>i = 2..n + 1. 1 / real_of_int (i * (phi_t ! nat i + pi_t ! nat i)))"
        using r by simp
    qed
  qed
  with nN show ?thesis by simp
qed

lemma scalar_sums:
  "Xi n = Inr (\<Sum>i = 3..n. 2 / (real_of_int (i * i) * (real_of_int i - 1)))"
  "E n = Inr (\<Sum>i = 2..n. log 2 (real_of_int i) / real_of_int (i * i))"
  "adequate N phi_t pi_t \<Longrightarrow> n \<le> N \<Longrightarrow>
     Omega n phi_t pi_t = Inr (\<Sum>i = 2..n. 1 / real_of_int (i * (phi_t ! nat i + pi_t ! nat i)))"
proof -
  from xi_acc_upto_sum[of n] show "Xi n = Inr (\<Sum>i = 3..n. 2 / (real_of_int (i * i) * (real_of_int i - 1)))"
    by (auto simp: Xi_acc rbind_def)
  from e_acc_upto_sum[of n] show "E n = Inr (\<Sum>i = 2..n. log 2 (real_of_int i) / real_of_int (i * i))"
    by (auto simp: E_acc rbind_def)
  assume "adequate N phi_t pi_t" "n \<le> N"
  from om_acc_upto_sum[OF this] show "Omega n phi_t pi_t =
      Inr (\<Sum>i = 2..n. 1 / real_of_int (i * (phi_t ! nat i + pi_t ! nat i)))"
    by (auto simp: Omega_acc rbind_def)
qed

text \<open>
  C9. For \<open>N \<ge> 1\<close> and adequate tables the generator yields exactly \<open>N\<close> records and no
  exception; their first components are \<open>1, 2, \<dots>, N\<close> in this order. The record for \<open>n\<close> is
  \<open>(n, x, om, e, x + om - e)\<close>, where \<open>x\<close>, \<open>om\<close> and \<open>e\<close> are the values of the three
  accumulators after the pass for \<open>n\<close>: they are what \<open>Xi n\<close>, \<open>Omega n \<phi> \<pi>\<close> and \<open>E n\<close> return,
  and in exact arithmetic the sums of the terms \<open>2 / (i\<^sup>2 (i - 1))\<close> over \<open>3..n\<close>,
  \<open>1 / (i (\<phi>(i) + \<pi>(i)))\<close> over \<open>2..n\<close> and \<open>log\<^sub>2 i / i\<^sup>2\<close> over \<open>2..n\<close>. The fifth component
  is computed from these three values. So \<open>x\<close> is 0 for \<open>n < 3\<close>, and \<open>e\<close> and \<open>om\<close> are 0 for
  \<open>n < 2\<close>.
\<close>

theorem stream_prefix_values_records:
  assumes "1 \<le> N" "adequate N phi_t pi_t"
  shows "\<exists>rs. stream_prefix_values N phi_t pi_t = (rs, None) \<and>
           length rs = nat N \<and> map fst rs = [1..N] \<and>
           (\<forall>j < nat N. \<exists>x om e.
              rs ! j = (1 + int j, x, om, e, x + om - e) \<and>
              Xi (1 + int j) = Inr x \<and> Omega (1 + int j) phi_t pi_t = Inr om \<and>
              E (1 + int j) = Inr e \<and>
              x = (\<Sum>i = 3..1 + int j. 2 / (real_of_int (i * i) * (real_of_int i - 1))) \<and>
              om = (\<Sum>i = 2..1 + int j. 1 / real_of_int (i * (phi_t ! nat i + pi_t ! nat i))) \<and>
              e = (\<Sum>i = 2..1 + int j. log 2 (real_of_int i) / real_of_int (i * i)) \<and>
              (1 + int j < 3 \<longrightarrow> x = 0) \<and> (1 + int j < 2 \<longrightarrow> e = 0 \<and> om = 0))"
proof -
  from stream_adequate[OF assms(2)] obtain rs where
    res: "stream_prefix_values N phi_t pi_t = (rs, None)" and
    len: "int (length rs) = max 0 N" and
    recs: "\<And>j. j < length rs \<Longrightarrow> \<exists>x om e.
            rs ! j = (1 + int j, x, om, e, x + om - e) \<and>
            Xi (1 + int j) = Inr x \<and> Omega (1 + int j) phi_t pi_t = Inr om \<and>
            E (1 + int j) = Inr e" by blast
  from len assms(1) have len': "length rs = nat N" by simp
  have "map fst rs = [1..N]"
  proof (rule nth_equalityI)
    show "length (map fst rs) = length [1..N]" using len' by simp
  next
    fix j assume "j < length (map fst rs)"
    then have j: "j < length rs" by simp
    from recs[OF j] have "fst (rs ! j) = 1 + int j" by auto
    moreover have "[1..N] ! j = 1 + int j" using j len' by simp
    ultimately show "map fst rs ! j = [1..N] ! j" using j by simp
  qed
  moreover have "\<forall>j < nat N. \<exists>x om e.
              rs ! j = (1 + int j, x, om, e, x + om - e) \<and>
              Xi (1 + int j) = Inr x \<and> Omega (1 + int j) phi_t pi_t = Inr om \<and>
              E (1 + int j) = Inr e \<and>
              x = (\<Sum>i = 3..1 + int j. 2 / (real_of_int (i * i) * (real_of_int i - 1))) \<and>
              om = (\<Sum>i = 2..1 + int j. 1 / real_of_int (i * (phi_t ! nat i + pi_t ! nat i))) \<and>
              e = (\<Sum>i = 2..1 + int j. log 2 (real_of_int i) / real_of_int (i * i)) \<and>
              (1 + int j < 3 \<longrightarrow> x = 0) \<and> (1 + int j < 2 \<longrightarrow> e = 0 \<and> om = 0)"
  proof (intro allI impI)
    fix j assume jN: "j < nat N"
    with len' have j: "j < length rs" by simp
    from recs[OF j] obtain x om e where
      r: "rs ! j = (1 + int j, x, om, e, x + om - e)" and
      sc: "Xi (1 + int j) = Inr x" "Omega (1 + int j) phi_t pi_t = Inr om" "E (1 + int j) = Inr e"
      by auto
    from jN have le: "1 + int j \<le> N" by simp
    from sc(1) scalar_sums(1)[of "1 + int j"]
    have x: "x = (\<Sum>i = 3..1 + int j. 2 / (real_of_int (i * i) * (real_of_int i - 1)))" by simp
    from sc(3) scalar_sums(2)[of "1 + int j"]
    have e: "e = (\<Sum>i = 2..1 + int j. log 2 (real_of_int i) / real_of_int (i * i))" by simp
    from sc(2) scalar_sums(3)[OF assms(2) le]
    have om: "om = (\<Sum>i = 2..1 + int j. 1 / real_of_int (i * (phi_t ! nat i + pi_t ! nat i)))" by simp
    from sc have z: "1 + int j < 3 \<longrightarrow> x = 0" "1 + int j < 2 \<longrightarrow> e = 0 \<and> om = 0"
      by (auto simp: Xi_def E_def Omega_def)
    from r sc x om e z show "\<exists>x om e.
              rs ! j = (1 + int j, x, om, e, x + om - e) \<and>
              Xi (1 + int j) = Inr x \<and> Omega (1 + int j) phi_t pi_t = Inr om \<and>
              E (1 + int j) = Inr e \<and>
              x = (\<Sum>i = 3..1 + int j. 2 / (real_of_int (i * i) * (real_of_int i - 1))) \<and>
              om = (\<Sum>i = 2..1 + int j. 1 / real_of_int (i * (phi_t ! nat i + pi_t ! nat i))) \<and>
              e = (\<Sum>i = 2..1 + int j. log 2 (real_of_int i) / real_of_int (i * i)) \<and>
              (1 + int j < 3 \<longrightarrow> x = 0) \<and> (1 + int j < 2 \<longrightarrow> e = 0 \<and> om = 0)"
      by blast
  qed
  ultimately show ?thesis using res len' by blast
qed

theorem stream_prefix_values_records_witness:
  "\<exists>rs e. stream_prefix_values 3 [0, 1, 1, 2] [0, 0, 1, 2] = (rs, None) \<and>
           length rs = 3 \<and> map fst rs = [1, 2, 3] \<and>
           rs ! 2 = (3, 1 / 9, 1 / 3, e, 1 / 9 + 1 / 3 - e) \<and>
           Xi 3 = Inr (1 / 9) \<and> Omega 3 [0, 1, 1, 2] [0, 0, 1, 2] = Inr (1 / 3) \<and> E 3 = Inr e \<and>
           e = log 2 2 / 4 + log 2 3 / 9"
proof -
  have a: "adequate 3 [0, 1, 1, 2] [0, 0, 1, 2]"
  proof -
    have "{2..3::int} = {2, 3}" by auto
    then show ?thesis by (simp add: adequate_def)
  qed
  have b: "[1..3::int] = [1, 2, 3]" by (simp add: upto_rec1)
  have i3: "{3..3::int} = {3}" by auto
  have i2: "{2..3::int} = {2, 3}" by auto
  have h: "(1::int) \<le> 3" by simp
  from stream_prefix_values_records[OF h a] obtain rs where
    rs: "stream_prefix_values 3 [0, 1, 1, 2] [0, 0, 1, 2] = (rs, None)" "length rs = nat 3"
      "map fst rs = [1..3]" and
    all: "\<forall>j < nat 3. \<exists>x om e.
              rs ! j = (1 + int j, x, om, e, x + om - e) \<and>
              Xi (1 + int j) = Inr x \<and> Omega (1 + int j) [0, 1, 1, 2] [0, 0, 1, 2] = Inr om \<and>
              E (1 + int j) = Inr e \<and>
              x = (\<Sum>i = 3..1 + int j. 2 / (real_of_int (i * i) * (real_of_int i - 1))) \<and>
              om = (\<Sum>i = 2..1 + int j. 1 / real_of_int (i * ([0, 1, 1, 2] ! nat i + [0, 0, 1, 2] ! nat i))) \<and>
              e = (\<Sum>i = 2..1 + int j. log 2 (real_of_int i) / real_of_int (i * i)) \<and>
              (1 + int j < 3 \<longrightarrow> x = 0) \<and> (1 + int j < 2 \<longrightarrow> e = 0 \<and> om = 0)"
    by blast
  have "(2::nat) < nat 3" by simp
  with all obtain x om e where
    r: "rs ! 2 = (1 + int 2, x, om, e, x + om - e)"
      "Xi (1 + int 2) = Inr x" "Omega (1 + int 2) [0, 1, 1, 2] [0, 0, 1, 2] = Inr om"
      "E (1 + int 2) = Inr e"
      "x = (\<Sum>i = 3..1 + int 2. 2 / (real_of_int (i * i) * (real_of_int i - 1)))"
      "om = (\<Sum>i = 2..1 + int 2. 1 / real_of_int (i * ([0, 1, 1, 2] ! nat i + [0, 0, 1, 2] ! nat i)))"
      "e = (\<Sum>i = 2..1 + int 2. log 2 (real_of_int i) / real_of_int (i * i))"
    by blast
  have x: "x = 1 / 9" using r(5) by (simp add: i3)
  have om: "om = 1 / 3" using r(6) by (simp add: i2 numeral_2_eq_2 numeral_3_eq_3)
  have e: "e = log 2 2 / 4 + log 2 3 / 9" using r(7) by (simp add: i2)
  from rs r(1-4) x om e b show ?thesis by simp
qed

section \<open>Primes and counts of coprime integers\<close>

lemma is_prime_number_iff:
  "is_prime_number p \<longleftrightarrow> 1 < p \<and> (\<forall>d. d dvd p \<longrightarrow> d = 1 \<or> d = p)"
proof
  assume a: "is_prime_number p"
  then have p: "1 < p" by (simp add: is_prime_number_def)
  have "d = 1 \<or> d = p" if "d dvd p" for d
  proof -
    from that p have "d \<le> p" by (simp add: dvd_imp_le)
    moreover from that p have "d \<noteq> 0" by (metis dvd_0_left not_one_less_zero)
    ultimately have "d \<in> {1..p}" by simp
    with a that show ?thesis by (simp add: is_prime_number_def)
  qed
  with p show "1 < p \<and> (\<forall>d. d dvd p \<longrightarrow> d = 1 \<or> d = p)" by blast
next
  assume "1 < p \<and> (\<forall>d. d dvd p \<longrightarrow> d = 1 \<or> d = p)"
  then show "is_prime_number p" by (simp add: is_prime_number_def)
qed

lemma prime_factor_exists: "1 < n \<Longrightarrow> \<exists>p. is_prime_number p \<and> p dvd n"
proof (induction n rule: less_induct)
  case (less n)
  show ?case
  proof (cases "is_prime_number n")
    case True
    then show ?thesis by auto
  next
    case False
    with less.prems obtain d where d: "d dvd n" "d \<noteq> 1" "d \<noteq> n"
      by (auto simp: is_prime_number_iff)
    from d less.prems have "d \<le> n" by (simp add: dvd_imp_le)
    with d have dn: "d < n" by simp
    from d less.prems have "d \<noteq> 0" by (metis dvd_0_left not_one_less_zero)
    with d have "1 < d" by simp
    from less.IH[OF dn this] obtain p where "is_prime_number p" "p dvd d" by blast
    with d(1) show ?thesis by (blast intro: dvd_trans)
  qed
qed

lemma prime_factor_le: "is_prime_number p \<Longrightarrow> p dvd n \<Longrightarrow> 0 < n \<Longrightarrow> p \<le> n"
  by (simp add: dvd_imp_le)

lemma small_prime_factor:
  assumes "1 < n" "\<not> is_prime_number n"
  shows "\<exists>p. is_prime_number p \<and> p dvd n \<and> p * p \<le> n"
proof -
  from assms obtain d where d: "d dvd n" "d \<noteq> 1" "d \<noteq> n"
    by (auto simp: is_prime_number_iff)
  then obtain e where n: "n = d * e" by (auto simp: dvd_def)
  have nz: "d \<noteq> 0" "e \<noteq> 0"
  proof -
    from assms(1) n have "0 < d * e" by linarith
    then show "d \<noteq> 0" "e \<noteq> 0" by simp_all
  qed
  from n d(3) have "e \<noteq> 1" by auto
  with nz d have gt: "1 < d" "1 < e" by simp_all
  define m where "m = min d e"
  have m1: "1 < m" using gt by (simp add: m_def)
  have mdvd: "m dvd n" using n by (auto simp: m_def min_def)
  have "m * m \<le> d * e" by (intro mult_le_mono) (simp_all add: m_def)
  then have mm: "m * m \<le> n" using n by simp
  from prime_factor_exists[OF m1] obtain p where p: "is_prime_number p" "p dvd m" by blast
  from p m1 have "p \<le> m" by (simp add: dvd_imp_le)
  then have "p * p \<le> m * m" by (intro mult_le_mono)
  with mm p mdvd show ?thesis by (meson dvd_trans le_trans)
qed

lemma prime_coprime: 
  assumes "is_prime_number p" "\<not> p dvd k"
  shows "coprime p k"
proof -
  have "gcd p k dvd p" by simp
  with assms(1) have "gcd p k = 1 \<or> gcd p k = p" by (simp add: is_prime_number_iff)
  moreover have "gcd p k \<noteq> p" using assms(2) by (metis gcd_dvd2)
  ultimately show ?thesis by (simp add: coprime_iff_gcd_eq_1)
qed

lemma prime_dvd_mult:
  assumes "is_prime_number p" "p dvd a * b"
  shows "p dvd a \<or> p dvd b"
proof (cases "p dvd a")
  case True then show ?thesis ..
next
  case False
  from prime_coprime[OF assms(1) False] assms(2) show ?thesis
    by (simp add: coprime_dvd_mult_right_iff)
qed

lemma prime_dvd_prime:
  assumes "is_prime_number p" "is_prime_number q" "q dvd p"
  shows "q = p"
  using assms by (auto simp: is_prime_number_iff)

lemma coprime_iff_no_common_prime:
  "coprime k j \<longleftrightarrow> (\<forall>q. is_prime_number q \<and> q dvd j \<longrightarrow> \<not> q dvd k)" if "0 < j" for k j :: nat
proof
  assume c: "coprime k j"
  show "\<forall>q. is_prime_number q \<and> q dvd j \<longrightarrow> \<not> q dvd k"
  proof (intro allI impI notI)
    fix q assume q: "is_prime_number q \<and> q dvd j" "q dvd k"
    with c have "is_unit q" by (auto simp: coprime_def)
    with q show False by (simp add: is_prime_number_iff)
  qed
next
  assume a: "\<forall>q. is_prime_number q \<and> q dvd j \<longrightarrow> \<not> q dvd k"
  show "coprime k j"
  proof (rule ccontr)
    assume "\<not> coprime k j"
    then have "gcd k j \<noteq> 1" by (simp add: coprime_iff_gcd_eq_1)
    moreover have "gcd k j \<noteq> 0" using that by simp
    ultimately have "1 < gcd k j" by linarith
    from prime_factor_exists[OF this] obtain q where "is_prime_number q" "q dvd gcd k j" by blast
    with a show False by auto
  qed
qed

lemma sifted_count_le: "sifted_count P M \<le> M"
proof -
  have "card {k \<in> {1..M}. \<forall>q \<in> P. \<not> q dvd k} \<le> card {1..M}"
    by (intro card_mono) auto
  then show ?thesis by (simp add: sifted_count_def)
qed

lemma sifted_count_empty: "sifted_count {} M = M"
proof -
  have "{k \<in> {1..M}. \<forall>q \<in> {}. \<not> q dvd k} = {1..M}" by blast
  then show ?thesis unfolding sifted_count_def by simp
qed

lemma sifted_count_period:
  assumes "\<forall>q \<in> P. q dvd M"
  shows "sifted_count P (m * M) = m * sifted_count P M"
proof (induction m)
  case 0
  show ?case by (simp add: sifted_count_def)
next
  case (Suc m)
  let ?Q = "\<lambda>k. \<forall>q \<in> P. \<not> q dvd k"
  let ?A = "{k \<in> {1..m * M}. ?Q k}"
  let ?B = "{k \<in> {m * M + 1..m * M + M}. ?Q k}"
  let ?C = "{k \<in> {1..M}. ?Q k}"
  have split: "{k \<in> {1..Suc m * M}. ?Q k} = ?A \<union> ?B" by auto
  have disj: "?A \<inter> ?B = {}" by auto
  have shiftQ: "?Q (k + m * M) = ?Q k" for k
  proof -
    have "q dvd k + m * M \<longleftrightarrow> q dvd k" if "q \<in> P" for q
    proof -
      from that assms have "q dvd m * M" by simp
      then show ?thesis by (simp add: dvd_add_left_iff)
    qed
    then show ?thesis by simp
  qed
  have "?B = (\<lambda>k. k + m * M) ` ?C"
  proof (intro set_eqI iffI)
    fix x assume x: "x \<in> ?B"
    then have "x - m * M \<in> {1..M}" by auto
    moreover from x have e: "x = (x - m * M) + m * M" by auto
    moreover from x have "?Q x" by simp
    then have "?Q (x - m * M)" using shiftQ[of "x - m * M"] e by simp
    ultimately show "x \<in> (\<lambda>k. k + m * M) ` ?C" by blast
  next
    fix x assume "x \<in> (\<lambda>k. k + m * M) ` ?C"
    then obtain k where k: "x = k + m * M" "k \<in> {1..M}" "?Q k" by auto
    then have "?Q x" using shiftQ[of k] by simp
    with k show "x \<in> ?B" by auto
  qed
  moreover have "inj_on (\<lambda>k. k + m * M) ?C" by (simp add: inj_on_def)
  ultimately have cB: "card ?B = card ?C" by (simp add: card_image)
  have "card (?A \<union> ?B) = card ?A + card ?B"
    by (intro card_Un_disjoint disj) simp_all
  with split cB Suc.IH show ?case by (simp add: sifted_count_def)
qed

lemma sifted_count_insert:
  assumes p: "is_prime_number p" and P: "\<forall>q \<in> P. is_prime_number q \<and> q \<noteq> p"
    and dvd: "p dvd M"
  shows "sifted_count (insert p P) M + sifted_count P (M div p) = sifted_count P M"
proof -
  let ?Q = "\<lambda>k. \<forall>q \<in> P. \<not> q dvd k"
  let ?A = "{k \<in> {1..M}. \<forall>q \<in> insert p P. \<not> q dvd k}"
  let ?B = "{k \<in> {1..M}. ?Q k \<and> p dvd k}"
  let ?C = "{k \<in> {1..M div p}. ?Q k}"
  from p have p0: "0 < p" by (simp add: is_prime_number_iff)
  have split: "{k \<in> {1..M}. ?Q k} = ?A \<union> ?B" by auto
  have disj: "?A \<inter> ?B = {}" by auto
  have Qmul: "?Q (p * k) = ?Q k" for k
  proof -
    have "q dvd p * k \<longleftrightarrow> q dvd k" if "q \<in> P" for q
    proof
      assume "q dvd p * k"
      from that P have q: "is_prime_number q" "q \<noteq> p" by auto
      from prime_dvd_mult[OF q(1) \<open>q dvd p * k\<close>] prime_dvd_prime[OF p q(1)] q(2)
      show "q dvd k" by auto
    next
      assume "q dvd k" then show "q dvd p * k" by simp
    qed
    then show ?thesis by simp
  qed
  have "?B = (\<lambda>k. p * k) ` ?C"
  proof (intro set_eqI iffI)
    fix x assume x: "x \<in> ?B"
    then obtain k where k: "x = p * k" by (auto simp: dvd_def)
    with x p0 have "1 \<le> k" by (cases k) auto
    moreover from x k have "p * k \<le> M" by simp
    then have "k \<le> M div p" using p0 by (simp add: less_eq_div_iff_mult_less_eq mult.commute)
    moreover from x k have "?Q k" using Qmul[of k] by simp
    ultimately show "x \<in> (\<lambda>k. p * k) ` ?C" using k by auto
  next
    fix x assume "x \<in> (\<lambda>k. p * k) ` ?C"
    then obtain k where k: "x = p * k" "1 \<le> k" "k \<le> M div p" "?Q k" by auto
    from k(3) have "p * k \<le> p * (M div p)" by simp
    also have "\<dots> = M" using dvd by simp
    finally have "p * k \<le> M" .
    moreover have "1 \<le> p * k" using k(2) p0 by (simp add: Suc_le_eq)
    moreover have "?Q (p * k)" using k(4) Qmul[of k] by simp
    ultimately show "x \<in> ?B" using k(1) by simp
  qed
  moreover have "inj_on (\<lambda>k. p * k) ?C" using p0 by (simp add: inj_on_def)
  ultimately have cB: "card ?B = card ?C" by (simp add: card_image)
  have "card (?A \<union> ?B) = card ?A + card ?B"
    by (intro card_Un_disjoint disj) simp_all
  with split cB show ?thesis by (simp add: sifted_count_def)
qed

lemma sifted_count_step:
  assumes p: "is_prime_number p" and P: "\<forall>q \<in> P. is_prime_number q \<and> q \<noteq> p \<and> q dvd M"
    and dvd: "p dvd M"
  shows "int (sifted_count (insert p P) M) = int (sifted_count P M) - int (sifted_count P M) div int p"
proof -
  from p have p0: "0 < p" by (simp add: is_prime_number_iff)
  have "\<forall>q \<in> P. q dvd M div p"
  proof
    fix q assume "q \<in> P"
    with P have q: "is_prime_number q" "q \<noteq> p" "q dvd M" by auto
    from dvd q(3) have "q dvd p * (M div p)" by simp
    from prime_dvd_mult[OF q(1) this] prime_dvd_prime[OF p q(1)] q(2)
    show "q dvd M div p" by auto
  qed
  from sifted_count_period[OF this, of p] dvd
  have per: "sifted_count P M = p * sifted_count P (M div p)" by simp
  then have "sifted_count P (M div p) = sifted_count P M div p" using p0 by simp
  moreover from sifted_count_insert[OF p _ dvd, of P] P
  have "sifted_count (insert p P) M + sifted_count P (M div p) = sifted_count P M" by simp
  ultimately have "sifted_count (insert p P) M = sifted_count P M - sifted_count P M div p" by linarith
  moreover have "sifted_count P M div p \<le> sifted_count P M" by simp
  ultimately show ?thesis by (simp add: of_nat_diff zdiv_int)
qed

lemma partial_totient_step_prime:
  assumes "is_prime_number p" "p dvd j"
  shows "int (partial_totient (Suc p) j) = int (partial_totient p j) - int (partial_totient p j) div int p"
proof -
  let ?P = "{q. is_prime_number q \<and> q < p \<and> q dvd j}"
  have eq: "{q. is_prime_number q \<and> q < Suc p \<and> q dvd j} = insert p ?P"
    using assms by (auto simp: less_Suc_eq)
  have "\<forall>q \<in> ?P. is_prime_number q \<and> q \<noteq> p \<and> q dvd j" by auto
  from sifted_count_step[OF assms(1) this assms(2)]
  show ?thesis unfolding partial_totient_def eq .
qed

lemma partial_totient_step_other:
  assumes "\<not> (is_prime_number p \<and> p dvd j)"
  shows "partial_totient (Suc p) j = partial_totient p j"
proof -
  have "{q. is_prime_number q \<and> q < Suc p \<and> q dvd j} = {q. is_prime_number q \<and> q < p \<and> q dvd j}"
    using assms by (auto simp: less_Suc_eq)
  then show ?thesis by (simp add: partial_totient_def)
qed

lemma partial_totient_start: "partial_totient 2 j = j"
proof -
  have "{q. is_prime_number q \<and> q < 2 \<and> q dvd j} = {}" by (auto simp: is_prime_number_iff)
  then show ?thesis unfolding partial_totient_def by (simp only: sifted_count_empty)
qed

lemma partial_totient_full:
  assumes "j < m"
  shows "partial_totient m j = coprime_count j"
proof (cases "j = 0")
  case True
  then show ?thesis by (simp add: partial_totient_def sifted_count_def coprime_count_def)
next
  case False
  then have j: "0 < j" by simp
  have "(\<forall>q \<in> {q. is_prime_number q \<and> q < m \<and> q dvd j}. \<not> q dvd k) \<longleftrightarrow> coprime k j" for k
  proof -
    have "is_prime_number q \<and> q dvd j \<longrightarrow> q < m" for q
      using assms j by (auto dest: dvd_imp_le)
    then show ?thesis unfolding coprime_iff_no_common_prime[OF j] by auto
  qed
  then show ?thesis by (simp add: partial_totient_def sifted_count_def coprime_count_def)
qed

lemma partial_totient_self_iff:
  assumes "2 \<le> i"
  shows "partial_totient i i = i \<longleftrightarrow> is_prime_number i"
proof
  assume eq: "partial_totient i i = i"
  show "is_prime_number i"
  proof (rule ccontr)
    assume np: "\<not> is_prime_number i"
    from assms have "1 < i" by simp
    from prime_factor_exists[OF this] obtain q where q: "is_prime_number q" "q dvd i" by blast
    with assms have "q \<le> i" by (simp add: dvd_imp_le)
    with q np have qi: "q < i" by (cases "q = i") auto
    from q have q1: "1 \<le> q" by (simp add: is_prime_number_iff)
    let ?S = "{k \<in> {1..i}. \<forall>q \<in> {q. is_prime_number q \<and> q < i \<and> q dvd i}. \<not> q dvd k}"
    have "?S \<subseteq> {1..i} - {q}" using q qi by auto
    then have "card ?S \<le> card ({1..i} - {q})" by (intro card_mono) simp_all
    also have "\<dots> < i" using q1 qi by (simp add: card_Diff_singleton_if)
    finally show False using eq by (simp add: partial_totient_def sifted_count_def)
  qed
next
  assume p: "is_prime_number i"
  have "{q. is_prime_number q \<and> q < i \<and> q dvd i} = {}"
    using prime_dvd_prime[OF p] by auto
  then show "partial_totient i i = i" unfolding partial_totient_def by (simp only: sifted_count_empty)
qed

section \<open>The totient sieve\<close>

lemma py_range_step_set:
  "0 < step \<Longrightarrow> set (py_range_step a b step) = {k. a \<le> k \<and> k < b \<and> step dvd (k - a)}"
proof (induction a b step rule: py_range_step.induct)
  case (1 a b step)
  show ?case
  proof (cases "a < b")
    case False
    then show ?thesis by (simp add: py_range_step.simps[of a b step])
  next
    case True
    with 1 have IH: "set (py_range_step (a + step) b step) =
        {k. a + step \<le> k \<and> k < b \<and> step dvd (k - (a + step))}" by simp
    have "{k. a \<le> k \<and> k < b \<and> step dvd (k - a)} =
          insert a {k. a + step \<le> k \<and> k < b \<and> step dvd (k - (a + step))}"
    proof (intro set_eqI iffI)
      fix k assume k: "k \<in> {k. a \<le> k \<and> k < b \<and> step dvd (k - a)}"
      show "k \<in> insert a {k. a + step \<le> k \<and> k < b \<and> step dvd (k - (a + step))}"
      proof (cases "k = a")
        case True then show ?thesis by simp
      next
        case False
        with k have pos: "0 < k - a" by simp
        from k have d: "step dvd (k - a)" by simp
        from zdvd_imp_le[OF d pos] have "a + step \<le> k" by simp
        moreover have "step dvd (k - a) - step" using d by (rule dvd_diff) simp
        then have "step dvd (k - (a + step))" by (simp only: diff_diff_add)
        ultimately show ?thesis using k by simp
      qed
    next
      fix k assume k: "k \<in> insert a {k. a + step \<le> k \<and> k < b \<and> step dvd (k - (a + step))}"
      show "k \<in> {k. a \<le> k \<and> k < b \<and> step dvd (k - a)}"
      proof (cases "k = a")
        case True with \<open>a < b\<close> show ?thesis by simp
      next
        case False
        with k have k': "a + step \<le> k" "k < b" "step dvd (k - (a + step))" by simp_all
        have "k - a = (k - (a + step)) + step" by simp
        then have "step dvd (k - a)" using k'(3) by (metis dvd_add_triv_right_iff)
        with k' 1(2) show ?thesis by simp
      qed
    qed
    with IH True 1(2) show ?thesis by (simp add: py_range_step.simps[of a b step])
  qed
qed

lemma py_range_step_distinct: "distinct (py_range_step a b step)"
proof (induction a b step rule: py_range_step.induct)
  case (1 a b step)
  show ?case
  proof (cases "0 < step \<and> a < b")
    case False
    then have "py_range_step a b step = []" by (subst py_range_step.simps) auto
    then show ?thesis by simp
  next
    case True
    then have "a \<notin> set (py_range_step (a + step) b step)"
      by (simp add: py_range_step_set)
    with True 1 show ?thesis by (simp add: py_range_step.simps[of a b step])
  qed
qed

lemma py_range_step_length:
  "0 < step \<Longrightarrow> a < b \<Longrightarrow> int (length (py_range_step a b step)) = (b - 1 - a) div step + 1"
proof (induction a b step rule: py_range_step.induct)
  case (1 a b step)
  show ?case
  proof (cases "a + step < b")
    case True
    with 1 have "int (length (py_range_step (a + step) b step)) = (b - 1 - (a + step)) div step + 1"
      by simp
    moreover have "(b - 1 - a) div step = (b - 1 - (a + step)) div step + 1"
    proof -
      have "b - 1 - a = (b - 1 - (a + step)) + step" by simp
      then show ?thesis using 1(2) by (metis div_add_self2 less_irrefl)
    qed
    ultimately show ?thesis using 1(2,3) by (simp add: py_range_step.simps[of a b step])
  next
    case False
    then have e: "py_range_step (a + step) b step = []"
      by (simp add: py_range_step.simps[of "a + step" b step])
    from False 1(2,3) have "(b - 1 - a) div step = 0" by (simp add: div_pos_pos_trivial)
    with e 1(2,3) show ?thesis by (simp add: py_range_step.simps[of a b step])
  qed
qed

lemma foldl_phi_inner:
  assumes "distinct js" "\<forall>j \<in> set js. 0 \<le> j"
  shows "length (foldl (phi_inner i) phi_t js) = length phi_t \<and>
         (\<forall>k < length phi_t. foldl (phi_inner i) phi_t js ! k =
            (if int k \<in> set js then phi_t ! k - phi_t ! k div i else phi_t ! k))"
  using assms
proof (induction js arbitrary: phi_t)
  case Nil
  show ?case by simp
next
  case (Cons j js)
  let ?phi' = "phi_inner i phi_t j"
  have len': "length ?phi' = length phi_t" by (simp add: phi_inner_def)
  from Cons.prems have d: "distinct js" "\<forall>j \<in> set js. 0 \<le> j" "j \<notin> set js" "0 \<le> j" by simp_all
  from Cons.IH[OF d(1,2), of ?phi'] len'
  have IH: "length (foldl (phi_inner i) ?phi' js) = length phi_t"
    "\<And>k. k < length phi_t \<Longrightarrow> foldl (phi_inner i) ?phi' js ! k =
            (if int k \<in> set js then ?phi' ! k - ?phi' ! k div i else ?phi' ! k)"
    by simp_all
  have "foldl (phi_inner i) phi_t (j # js) ! k =
            (if int k \<in> set (j # js) then phi_t ! k - phi_t ! k div i else phi_t ! k)"
    if k: "k < length phi_t" for k
  proof (cases "int k = j")
    case True
    then have kj: "nat j = k" by simp
    from True d(3) have "int k \<notin> set js" by simp
    with IH(2)[OF k] have "foldl (phi_inner i) ?phi' js ! k = ?phi' ! k" by simp
    also have "\<dots> = phi_t ! k - phi_t ! k div i" using k kj by (simp add: phi_inner_def)
    finally show ?thesis using True by simp
  next
    case False
    with d(4) have "nat j \<noteq> k" by auto
    then have "?phi' ! k = phi_t ! k" by (simp add: phi_inner_def)
    with IH(2)[OF k] False show ?thesis by simp
  qed
  with IH(1) show ?case by simp
qed

lemma phi_outer_inv:
  assumes inv: "phi_inv N (nat i) phi_t" and i: "2 \<le> i" "i \<le> N"
  shows "phi_inv N (Suc (nat i)) (phi_outer N phi_t i)"
proof -
  from inv have len: "length phi_t = nat (N + 1)"
    and val: "\<And>k. k \<le> nat N \<Longrightarrow> phi_t ! k = int (partial_totient (nat i) k)"
    by (simp_all add: phi_inv_def)
  from i have ni: "2 \<le> nat i" "nat i \<le> nat N" by simp_all
  have test: "phi_t ! nat i = i \<longleftrightarrow> is_prime_number (nat i)"
  proof -
    have "phi_t ! nat i = int (partial_totient (nat i) (nat i))" using val ni by simp
    moreover have "int (partial_totient (nat i) (nat i)) = i \<longleftrightarrow> partial_totient (nat i) (nat i) = nat i"
      using i by auto
    ultimately show ?thesis using partial_totient_self_iff[OF ni(1)] by simp
  qed
  show ?thesis
  proof (cases "is_prime_number (nat i)")
    case False
    with test have "phi_outer N phi_t i = phi_t" by (simp add: phi_outer_def)
    moreover have "partial_totient (Suc (nat i)) k = partial_totient (nat i) k" for k
      using False by (simp add: partial_totient_step_other)
    ultimately show ?thesis using len val by (simp add: phi_inv_def)
  next
    case True
    let ?js = "py_range_step i (N + 1) i"
    from True test have eq: "phi_outer N phi_t i = foldl (phi_inner i) phi_t ?js"
      by (simp add: phi_outer_def)
    have set_js: "set ?js = {k. i \<le> k \<and> k < N + 1 \<and> i dvd (k - i)}"
      using i by (simp add: py_range_step_set)
    have nonneg: "\<forall>j \<in> set ?js. 0 \<le> j" using i set_js by auto
    from foldl_phi_inner[OF py_range_step_distinct nonneg, of i phi_t]
    have len': "length (foldl (phi_inner i) phi_t ?js) = length phi_t"
      and val': "\<And>k. k < length phi_t \<Longrightarrow> foldl (phi_inner i) phi_t ?js ! k =
            (if int k \<in> set ?js then phi_t ! k - phi_t ! k div i else phi_t ! k)"
      by simp_all
    have "foldl (phi_inner i) phi_t ?js ! k = int (partial_totient (Suc (nat i)) k)"
      if k: "k \<le> nat N" for k
    proof -
      from k i len have kl: "k < length phi_t" by simp
      have mem: "int k \<in> set ?js \<longleftrightarrow> nat i dvd k \<and> 0 < k"
      proof
        assume "int k \<in> set ?js"
        with set_js have a: "i \<le> int k" "i dvd (int k - i)" by simp_all
        from a(2) have "i dvd (int k - i) + i" by (rule dvd_add) simp
        then have "i dvd int k" by simp
        then have "int (nat i) dvd int k" using i by simp
        then have "nat i dvd k" by (simp only: int_dvd_int_iff)
        moreover from a(1) i have "0 < k" by simp
        ultimately show "nat i dvd k \<and> 0 < k" ..
      next
        assume a: "nat i dvd k \<and> 0 < k"
        then have "nat i \<le> k" by (simp add: dvd_imp_le)
        then have 1: "i \<le> int k" by simp
        from a have "int (nat i) dvd int k" by (simp only: int_dvd_int_iff)
        then have "i dvd int k" using i by simp
        then have 2: "i dvd (int k - i)" by simp
        from k i have 3: "int k < N + 1" by simp
        from 1 2 3 set_js show "int k \<in> set ?js" by simp
      qed
      show ?thesis
      proof (cases "nat i dvd k \<and> 0 < k")
        case yes: True
        with mem val'[OF kl] val[OF k]
        have "foldl (phi_inner i) phi_t ?js ! k =
                int (partial_totient (nat i) k) - int (partial_totient (nat i) k) div i" by simp
        also have "\<dots> = int (partial_totient (nat i) k) - int (partial_totient (nat i) k) div int (nat i)"
          using i by simp
        also have "\<dots> = int (partial_totient (Suc (nat i)) k)"
          using partial_totient_step_prime[OF True, of k] yes by simp
        finally show ?thesis .
      next
        case no: False
        with mem val'[OF kl] val[OF k]
        have "foldl (phi_inner i) phi_t ?js ! k = int (partial_totient (nat i) k)" by simp
        moreover have "partial_totient (Suc (nat i)) k = partial_totient (nat i) k"
        proof (cases "k = 0")
          case True
          then show ?thesis by (simp add: partial_totient_def sifted_count_def)
        next
          case False
          with no have "\<not> nat i dvd k" by simp
          then show ?thesis by (simp add: partial_totient_step_other)
        qed
        ultimately show ?thesis by simp
      qed
    qed
    with len len' eq show ?thesis by (simp add: phi_inv_def)
  qed
qed

lemma phi_loop_inv:
  assumes "phi_inv N 2 phi_t" "1 \<le> M" "M \<le> N"
  shows "phi_inv N (Suc (nat M)) (foldl (phi_outer N) phi_t [2..M])"
  using assms(2,3)
proof (induction M rule: int_ge_induct)
  case base
  from assms(1) show ?case by (simp add: numeral_2_eq_2)
next
  case (step M)
  then have IH: "phi_inv N (Suc (nat M)) (foldl (phi_outer N) phi_t [2..M])" by simp
  from step have list: "[2..M + 1] = [2..M] @ [M + 1]" by (simp add: upto_rec2)
  have "Suc (nat M) = nat (M + 1)" using step by simp
  with IH have "phi_inv N (nat (M + 1)) (foldl (phi_outer N) phi_t [2..M])" by simp
  from phi_outer_inv[OF this] step
  have "phi_inv N (Suc (nat (M + 1))) (phi_outer N (foldl (phi_outer N) phi_t [2..M]) (M + 1))"
    by simp
  then show ?case by (simp add: list)
qed

lemma phi_init_inv:
  assumes "0 \<le> N"
  shows "phi_inv N 2 (if 1 \<le> N then (py_range 0 (N + 1))[1 := 1] else py_range 0 (N + 1))"
proof -
  have len: "length (py_range 0 (N + 1)) = nat (N + 1)" by (simp add: py_range_def)
  have val: "py_range 0 (N + 1) ! k = int k" if "k \<le> nat N" for k
    using that assms by (simp add: py_range_def)
  have "(py_range 0 (N + 1))[1 := 1] ! k = int k" if "k \<le> nat N" for k
  proof (cases "k = 1")
    case True
    with that len assms show ?thesis by simp
  next
    case False
    with val[OF that] show ?thesis by simp
  qed
  with len val show ?thesis by (simp add: phi_inv_def partial_totient_start)
qed

lemma sieve_phi_inv:
  assumes "0 \<le> N"
  shows "\<exists>m. nat N < m \<and> phi_inv N m (sieve_phi N)"
proof (cases "1 \<le> N")
  case True
  from phi_loop_inv[OF phi_init_inv[OF assms] True order_refl]
  have "phi_inv N (Suc (nat N)) (sieve_phi N)"
    by (simp add: sieve_phi_def Let_def py_range_def[of 2])
  then show ?thesis by blast
next
  case False
  with assms have "N = 0" by simp
  with phi_init_inv[OF assms] have "phi_inv N 2 (sieve_phi N)"
    by (simp add: sieve_phi_def Let_def py_range_def)
  moreover have "nat N < 2" using \<open>N = 0\<close> by simp
  ultimately show ?thesis by blast
qed

lemma sieve_phi_correct:
  assumes "0 \<le> N"
  shows "length (sieve_phi N) = nat N + 1" and "i \<le> nat N \<Longrightarrow> sieve_phi N ! i = int (coprime_count i)"
proof -
  from sieve_phi_inv[OF assms] obtain m where m: "nat N < m" "phi_inv N m (sieve_phi N)" by blast
  from m(2) assms show "length (sieve_phi N) = nat N + 1" by (simp add: phi_inv_def nat_add_distrib)
  assume i: "i \<le> nat N"
  with m(2) have "sieve_phi N ! i = int (partial_totient m i)" by (simp add: phi_inv_def)
  moreover from i m(1) have "i < m" by simp
  ultimately show "sieve_phi N ! i = int (coprime_count i)" by (simp add: partial_totient_full)
qed

lemma coprime_count_0: "coprime_count 0 = 0"
  by (simp add: coprime_count_def)

lemma coprime_count_1: "coprime_count 1 = 1"
proof -
  have "{k \<in> {1..1::nat}. coprime k 1} = {1}" by auto
  then show ?thesis by (simp add: coprime_count_def)
qed

lemma coprime_count_prime:
  assumes "is_prime_number p"
  shows "coprime_count p = p - 1"
proof -
  from assms have p: "1 < p" by (simp add: is_prime_number_iff)
  have "coprime k p \<longleftrightarrow> k < p" if "k \<in> {1..p}" for k
  proof
    assume c: "coprime k p"
    show "k < p"
    proof (rule ccontr)
      assume "\<not> k < p"
      with that have "k = p" by simp
      with c p show False by simp
    qed
  next
    assume "k < p"
    with that have "\<not> p dvd k" by (auto dest: dvd_imp_le)
    from prime_coprime[OF assms this] show "coprime k p" by (simp add: coprime_commute)
  qed
  then have "{k \<in> {1..p}. coprime k p} = {1..<p}" by auto
  then show ?thesis by (simp add: coprime_count_def)
qed

lemma sieve_phi_10: "sieve_phi 10 = [0, 1, 1, 2, 2, 4, 2, 6, 4, 6, 4]"
  by code_simp

text \<open>
  C5. For every \<open>N \<ge> 0\<close>, \<open>sieve_phi N\<close> is a table of length \<open>N + 1\<close> whose entry 0 is 0, whose
  entry 1 is 1, and whose entry \<open>i\<close>, for \<open>1 \<le> i \<le> N\<close>, is the count of the integers in
  \<open>[1, i]\<close> coprime to \<open>i\<close>; so the entry of a prime \<open>p \<le> N\<close> is \<open>p - 1\<close>. And
  \<open>sieve_phi 10 = [0,1,1,2,2,4,2,6,4,6,4]\<close>.
\<close>

theorem sieve_phi_totient:
  assumes "0 \<le> N"
  shows "length (sieve_phi N) = nat N + 1 \<and>
         sieve_phi N ! 0 = 0 \<and>
         (1 \<le> N \<longrightarrow> sieve_phi N ! 1 = 1) \<and>
         (\<forall>i. 1 \<le> i \<and> i \<le> nat N \<longrightarrow> sieve_phi N ! i = int (coprime_count i)) \<and>
         (\<forall>p. is_prime_number p \<and> p \<le> nat N \<longrightarrow> sieve_phi N ! p = int p - 1) \<and>
         sieve_phi 10 = [0, 1, 1, 2, 2, 4, 2, 6, 4, 6, 4]"
proof -
  note c = sieve_phi_correct[OF assms]
  have "sieve_phi N ! 0 = 0" using c(2)[of 0] by (simp add: coprime_count_0)
  moreover have "1 \<le> N \<longrightarrow> sieve_phi N ! 1 = 1" using c(2)[of 1] coprime_count_1 by auto
  moreover have "\<forall>p. is_prime_number p \<and> p \<le> nat N \<longrightarrow> sieve_phi N ! p = int p - 1"
  proof (intro allI impI)
    fix p assume p: "is_prime_number p \<and> p \<le> nat N"
    then have "1 < p" by (simp add: is_prime_number_iff)
    with p c(2)[of p] show "sieve_phi N ! p = int p - 1"
      by (simp add: coprime_count_prime of_nat_diff)
  qed
  ultimately show ?thesis using c sieve_phi_10 by simp
qed

theorem sieve_phi_totient_witness:
  "length (sieve_phi 10) = 11 \<and> sieve_phi 10 ! 0 = 0 \<and> sieve_phi 10 ! 1 = 1 \<and>
   sieve_phi 10 ! 6 = int (coprime_count 6) \<and> sieve_phi 10 ! 2 = int 2 - 1"
proof -
  have h: "(0::int) \<le> 10" by simp
  have p7: "is_prime_number 2" by (auto simp: is_prime_number_def)
  note t = sieve_phi_totient[OF h]
  from t have "length (sieve_phi 10) = 11" "sieve_phi 10 ! 0 = 0" "sieve_phi 10 ! 1 = 1" by simp_all
  moreover from t have "\<forall>i. 1 \<le> i \<and> i \<le> nat 10 \<longrightarrow> sieve_phi 10 ! i = int (coprime_count i)" by blast
  then have "sieve_phi 10 ! 6 = int (coprime_count 6)" by simp
  moreover from t have "\<forall>p. is_prime_number p \<and> p \<le> nat 10 \<longrightarrow> sieve_phi 10 ! p = int p - 1" by blast
  with p7 have "sieve_phi 10 ! 2 = int 2 - 1" by simp
  ultimately show ?thesis by blast
qed

section \<open>The sieve of Eratosthenes and the prime counts\<close>

lemma fold_store:
  assumes "\<forall>j \<in> set js. 0 \<le> j"
  shows "length (fold (\<lambda>j ys. ys[nat j := v]) js xs) = length xs \<and>
         (\<forall>k < length xs. fold (\<lambda>j ys. ys[nat j := v]) js xs ! k =
            (if int k \<in> set js then v else xs ! k))"
  using assms
proof (induction js arbitrary: xs)
  case Nil
  show ?case by simp
next
  case (Cons j js)
  let ?xs' = "xs[nat j := v]"
  from Cons.prems have nn: "\<forall>j \<in> set js. 0 \<le> j" "0 \<le> j" by simp_all
  from Cons.IH[OF nn(1), of ?xs']
  have IH: "length (fold (\<lambda>j ys. ys[nat j := v]) js ?xs') = length xs"
    "\<And>k. k < length xs \<Longrightarrow> fold (\<lambda>j ys. ys[nat j := v]) js ?xs' ! k =
            (if int k \<in> set js then v else ?xs' ! k)"
    by simp_all
  have "fold (\<lambda>j ys. ys[nat j := v]) (j # js) xs ! k =
            (if int k \<in> set (j # js) then v else xs ! k)" if k: "k < length xs" for k
  proof (cases "int k = j")
    case True
    then have "nat j = k" by simp
    then have "?xs' ! k = v" using k by simp
    with IH(2)[OF k] True show ?thesis by simp
  next
    case False
    with nn(2) have "nat j \<noteq> k" by auto
    then have "?xs' ! k = xs ! k" by simp
    with IH(2)[OF k] False show ?thesis by simp
  qed
  with IH(1) show ?case by simp
qed

lemma slice_assign_replicate:
  assumes step: "0 < step" and start: "0 \<le> start" "start < stop"
    and stop: "stop \<le> int (length xs)"
  shows "\<exists>ys. slice_assign xs start stop step
                (replicate (nat ((stop - 1 - start) div step + 1)) v) = Inr ys \<and>
              length ys = length xs \<and>
              (\<forall>k < length xs. ys ! k =
                 (if start \<le> int k \<and> int k < stop \<and> step dvd (int k - start) then v else xs ! k))"
proof -
  let ?idx = "py_range_step start stop step"
  let ?m = "nat ((stop - 1 - start) div step + 1)"
  from start stop have clip: "min start (int (length xs)) = start" "min stop (int (length xs)) = stop"
    by simp_all
  from py_range_step_length[OF step start(2)]
  have len: "length ?idx = ?m" by simp
  have set_idx: "set ?idx = {k. start \<le> k \<and> k < stop \<and> step dvd (k - start)}"
    using step by (rule py_range_step_set)
  with start have nn: "\<forall>j \<in> set ?idx. 0 \<le> j" by auto
  have "zip ?idx (replicate ?m v) = map (\<lambda>j. (j, v)) ?idx"
    using len by (simp add: zip_replicate2)
  then have "fold (\<lambda>(j, v) ys. ys[nat j := v]) (zip ?idx (replicate ?m v)) xs =
             fold (\<lambda>j ys. ys[nat j := v]) ?idx xs"
    by (simp add: fold_map comp_def)
  with len have res: "slice_assign xs start stop step (replicate ?m v) =
                 Inr (fold (\<lambda>j ys. ys[nat j := v]) ?idx xs)"
    unfolding slice_assign_def Let_def clip by simp
  from fold_store[OF nn, of v xs] set_idx
  have "length (fold (\<lambda>j ys. ys[nat j := v]) ?idx xs) = length xs \<and>
        (\<forall>k < length xs. fold (\<lambda>j ys. ys[nat j := v]) ?idx xs ! k =
            (if start \<le> int k \<and> int k < stop \<and> step dvd (int k - start) then v else xs ! k))"
    by simp
  with res show ?thesis by blast
qed

lemma sieve_inv_prime_test:
  assumes inv: "sieve_inv N p is_prime" and p: "2 \<le> p" "p \<le> N"
  shows "is_prime ! nat p \<longleftrightarrow> is_prime_number (nat p)"
proof -
  from p have np: "nat p \<le> nat N" "2 \<le> nat p" by simp_all
  with inv have t: "is_prime ! nat p \<longleftrightarrow>
      \<not> (\<exists>q. is_prime_number q \<and> int q < p \<and> q dvd nat p \<and> q * q \<le> nat p)"
    by (simp add: sieve_inv_def)
  show ?thesis
  proof
    assume a: "is_prime ! nat p"
    show "is_prime_number (nat p)"
    proof (rule ccontr)
      assume "\<not> is_prime_number (nat p)"
      moreover from np have "1 < nat p" by simp
      ultimately obtain q where q: "is_prime_number q" "q dvd nat p" "q * q \<le> nat p"
        using small_prime_factor by blast
      from q(1) have "1 < q" by (simp add: is_prime_number_iff)
      then have "q < q * q" by simp
      with q(3) have "q < nat p" by linarith
      then have "int q < p" by simp
      with q t a show False by blast
    qed
  next
    assume pr: "is_prime_number (nat p)"
    have "\<not> (\<exists>q. is_prime_number q \<and> int q < p \<and> q dvd nat p \<and> q * q \<le> nat p)"
    proof
      assume "\<exists>q. is_prime_number q \<and> int q < p \<and> q dvd nat p \<and> q * q \<le> nat p"
      then obtain q where q: "is_prime_number q" "int q < p" "q dvd nat p" by blast
      from prime_dvd_prime[OF pr q(1) q(3)] q(2) p(1) show False by simp
    qed
    with t show "is_prime ! nat p" by simp
  qed
qed

lemma sieve_inv_step:
  assumes inv: "sieve_inv N p is_prime" and p: "2 \<le> p" "p * p \<le> N"
  shows "\<exists>b. (if is_prime ! nat p
               then slice_assign is_prime (p * p) (N + 1) p
                      (replicate (nat ((N - p * p) div p + 1)) False)
               else Inr is_prime) = Inr b \<and> sieve_inv N (p + 1) b"
proof -
  from p have "p * 1 \<le> p * p" by (intro mult_left_mono) simp_all
  then have "p \<le> p * p" by simp
  with p have pN: "p \<le> N" by linarith
  from inv have len: "length is_prime = nat (N + 1)"
    and val: "\<And>k. k \<le> nat N \<Longrightarrow> is_prime ! k \<longleftrightarrow>
        2 \<le> k \<and> \<not> (\<exists>q. is_prime_number q \<and> int q < p \<and> q dvd k \<and> q * q \<le> k)"
    by (simp_all add: sieve_inv_def)
  note test = sieve_inv_prime_test[OF inv p(1) pN]
  have bound: "int q < p + 1 \<longleftrightarrow> int q < p \<or> q = nat p" for q
    using p by auto
  show ?thesis
  proof (cases "is_prime_number (nat p)")
    case False
    have "sieve_inv N (p + 1) is_prime"
      unfolding sieve_inv_def
    proof (intro conjI allI impI)
      show "length is_prime = nat (N + 1)" by (rule len)
    next
      fix k assume k: "k \<le> nat N"
      have "(\<exists>q. is_prime_number q \<and> int q < p + 1 \<and> q dvd k \<and> q * q \<le> k) \<longleftrightarrow>
            (\<exists>q. is_prime_number q \<and> int q < p \<and> q dvd k \<and> q * q \<le> k)"
        using False bound by blast
      with val[OF k] show "is_prime ! k \<longleftrightarrow>
        2 \<le> k \<and> \<not> (\<exists>q. is_prime_number q \<and> int q < p + 1 \<and> q dvd k \<and> q * q \<le> k)"
        by simp
    qed
    with False test show ?thesis by simp
  next
    case True
    have "0 < p" "0 \<le> p * p" "p * p < N + 1" "N + 1 \<le> int (length is_prime)"
      using p len by simp_all
    from slice_assign_replicate[OF this, of False]
    obtain ys where ys: "slice_assign is_prime (p * p) (N + 1) p
                (replicate (nat ((N - p * p) div p + 1)) False) = Inr ys"
      "length ys = length is_prime"
      "\<And>k. k < length is_prime \<Longrightarrow> ys ! k =
           (if p * p \<le> int k \<and> int k < N + 1 \<and> p dvd (int k - p * p) then False
            else is_prime ! k)"
      by auto
    have "sieve_inv N (p + 1) ys"
      unfolding sieve_inv_def
    proof (intro conjI allI impI)
      show "length ys = nat (N + 1)" using ys(2) len by simp
    next
      fix k assume k: "k \<le> nat N"
      with len pN p have kl: "k < length is_prime" "int k < N + 1" by simp_all
      have dv: "p dvd (int k - p * p) \<longleftrightarrow> nat p dvd k"
      proof -
        have "p dvd (int k - p * p) \<longleftrightarrow> p dvd int k" by (simp add: dvd_diff_left_iff)
        also have "\<dots> \<longleftrightarrow> int (nat p) dvd int k" using p by simp
        also have "\<dots> \<longleftrightarrow> nat p dvd k" by (simp only: int_dvd_int_iff)
        finally show ?thesis .
      qed
      have sq: "p * p \<le> int k \<longleftrightarrow> nat p * nat p \<le> k"
      proof -
        have "int (nat p * nat p) = p * p" using p by simp
        then show ?thesis by (metis of_nat_le_iff)
      qed
      have ex: "(\<exists>q. is_prime_number q \<and> int q < p + 1 \<and> q dvd k \<and> q * q \<le> k) \<longleftrightarrow>
            (\<exists>q. is_prime_number q \<and> int q < p \<and> q dvd k \<and> q * q \<le> k) \<or>
            (nat p dvd k \<and> nat p * nat p \<le> k)"
        using True bound by blast
      from ys(3)[OF kl(1)] kl(2) dv sq
      have "ys ! k \<longleftrightarrow> is_prime ! k \<and> \<not> (nat p dvd k \<and> nat p * nat p \<le> k)" by auto
      with val[OF k] ex show "ys ! k \<longleftrightarrow>
        2 \<le> k \<and> \<not> (\<exists>q. is_prime_number q \<and> int q < p + 1 \<and> q dvd k \<and> q * q \<le> k)"
        by blast
    qed
    with True test ys(1) show ?thesis by simp
  qed
qed

lemma sieve_inv_final:
  assumes inv: "sieve_inv N p is_prime" and p: "0 \<le> p" "N < p * p" and k: "k \<le> nat N"
  shows "is_prime ! k \<longleftrightarrow> is_prime_number k"
proof -
  from inv k have t: "is_prime ! k \<longleftrightarrow>
        2 \<le> k \<and> \<not> (\<exists>q. is_prime_number q \<and> int q < p \<and> q dvd k \<and> q * q \<le> k)"
    by (simp add: sieve_inv_def)
  show ?thesis
  proof
    assume a: "is_prime ! k"
    show "is_prime_number k"
    proof (rule ccontr)
      assume "\<not> is_prime_number k"
      moreover from a t have "1 < k" by simp
      ultimately obtain q where q: "is_prime_number q" "q dvd k" "q * q \<le> k"
        using small_prime_factor by blast
      have "int q < p"
      proof (rule ccontr)
        assume "\<not> int q < p"
        then have "p \<le> int q" by simp
        with p(1) have "p * p \<le> int q * int q" by (intro mult_mono) simp_all
        also have "\<dots> = int (q * q)" by simp
        also have "\<dots> \<le> int k" using q(3) by (simp only: of_nat_le_iff)
        also have "\<dots> \<le> N"
        proof -
          from q(1) have "0 < q * q" by (simp add: is_prime_number_iff)
          with q(3) k have "0 < nat N" by linarith
          with k show ?thesis by linarith
        qed
        finally show False using p(2) by simp
      qed
      with q a t show False by blast
    qed
  next
    assume pr: "is_prime_number k"
    then have k1: "1 < k" by (simp add: is_prime_number_iff)
    have "\<not> (\<exists>q. is_prime_number q \<and> int q < p \<and> q dvd k \<and> q * q \<le> k)"
    proof
      assume "\<exists>q. is_prime_number q \<and> int q < p \<and> q dvd k \<and> q * q \<le> k"
      then obtain q where q: "is_prime_number q" "q dvd k" "q * q \<le> k" by blast
      from prime_dvd_prime[OF pr q(1) q(2)] q(3) have "k * k \<le> k" by simp
      with k1 show False by simp
    qed
    with t k1 show "is_prime ! k" by simp
  qed
qed

lemma sieve_loop_correct:
  "2 \<le> p \<Longrightarrow> sieve_inv N p is_prime \<Longrightarrow>
   \<exists>b. sieve_loop N is_prime p = Inr b \<and> length b = nat (N + 1) \<and>
       (\<forall>k \<le> nat N. b ! k \<longleftrightarrow> is_prime_number k)"
proof (induction N is_prime p rule: sieve_loop.induct)
  case (1 N is_prime p)
  show ?case
  proof (cases "p * p \<le> N")
    case False
    then have "sieve_loop N is_prime p = Inr is_prime" by (simp add: sieve_loop.simps[of N is_prime p])
    moreover from "1.prems" have "length is_prime = nat (N + 1)" by (simp add: sieve_inv_def)
    moreover have "\<forall>k \<le> nat N. is_prime ! k \<longleftrightarrow> is_prime_number k"
      using sieve_inv_final[OF "1.prems"(2)] "1.prems"(1) False by simp
    ultimately show ?thesis by simp
  next
    case True
    from sieve_inv_step[OF "1.prems"(2,1) True] obtain b where
      b: "(if is_prime ! nat p
               then slice_assign is_prime (p * p) (N + 1) p
                      (replicate (nat ((N - p * p) div p + 1)) False)
               else Inr is_prime) = Inr b" "sieve_inv N (p + 1) b" by blast
    from "1.prems"(1) have "2 \<le> p + 1" by simp
    from "1.IH"[OF True b(1) this b(2)]
    have "\<exists>b'. sieve_loop N b (p + 1) = Inr b' \<and> length b' = nat (N + 1) \<and>
       (\<forall>k \<le> nat N. b' ! k \<longleftrightarrow> is_prime_number k)" .
    moreover have "sieve_loop N is_prime p = sieve_loop N b (p + 1)"
      using True b(1) by (simp add: sieve_loop.simps[of N is_prime p])
    ultimately show ?thesis by simp
  qed
qed

lemma not_prime_0_1: "\<not> is_prime_number 0" "\<not> is_prime_number 1" "\<not> is_prime_number (Suc 0)"
  by (simp_all add: is_prime_number_def)

lemma sieve_primes_bool_correct:
  "\<exists>b. sieve_primes_bool N = Inr b \<and> length b = nat (N + 1) \<and>
       (\<forall>k. int k \<le> N \<longrightarrow> (b ! k \<longleftrightarrow> is_prime_number k))"
proof (cases "N < 1")
  case True
  have "replicate (nat (N + 1)) False ! k \<longleftrightarrow> is_prime_number k" if "int k \<le> N" for k
  proof -
    from that True have "k = 0" by simp
    with that show ?thesis by (simp add: not_prime_0_1)
  qed
  with True show ?thesis by (simp add: sieve_primes_bool_def)
next
  case False
  let ?init = "(replicate (nat (N + 1)) True)[0 := False, 1 := False]"
  have "sieve_inv N 2 ?init"
    unfolding sieve_inv_def
  proof (intro conjI allI impI)
    show "length ?init = nat (N + 1)" by simp
  next
    fix k assume k: "k \<le> nat N"
    have no: "\<not> (\<exists>q. is_prime_number q \<and> int q < 2 \<and> q dvd k \<and> q * q \<le> k)"
      by (auto simp: is_prime_number_iff)
    from k False have kl: "k < nat (N + 1)" by simp
    have "?init ! k \<longleftrightarrow> 2 \<le> k"
    proof (cases "k = 0 \<or> k = 1")
      case True
      with kl False show ?thesis by (auto simp: nth_list_update)
    next
      case False
      with kl show ?thesis by (simp add: nth_list_update)
    qed
    with no show "?init ! k \<longleftrightarrow>
        2 \<le> k \<and> \<not> (\<exists>q. is_prime_number q \<and> int q < 2 \<and> q dvd k \<and> q * q \<le> k)" by simp
  qed
  from sieve_loop_correct[OF _ this] obtain b where
    "sieve_loop N ?init 2 = Inr b" "length b = nat (N + 1)"
    "\<forall>k \<le> nat N. b ! k \<longleftrightarrow> is_prime_number k" by auto
  moreover have "int k \<le> N \<longleftrightarrow> k \<le> nat N" for k using False by auto
  ultimately show ?thesis using False by (simp add: sieve_primes_bool_def)
qed

lemma prime_count_0: "prime_count 0 = 0"
proof -
  have "{p \<in> {0..0::nat}. is_prime_number p} = {}" by (auto simp: not_prime_0_1)
  then show ?thesis unfolding prime_count_def by (simp only: card.empty)
qed

lemma prime_count_Suc:
  "prime_count (Suc m) = prime_count m + (if is_prime_number (Suc m) then 1 else 0)"
proof (cases "is_prime_number (Suc m)")
  case True
  then have "{p \<in> {0..Suc m}. is_prime_number p} = insert (Suc m) {p \<in> {0..m}. is_prime_number p}"
    by (auto simp: le_Suc_eq)
  moreover
  have "card (insert (Suc m) {p \<in> {0..m}. is_prime_number p}) =
        Suc (card {p \<in> {0..m}. is_prime_number p})"
    by (rule card_insert_disjoint) simp_all
  ultimately have "card {p \<in> {0..Suc m}. is_prime_number p} = Suc (card {p \<in> {0..m}. is_prime_number p})"
    by (simp only:)
  with True show ?thesis by (simp add: prime_count_def)
next
  case False
  then have "{p \<in> {0..Suc m}. is_prime_number p} = {p \<in> {0..m}. is_prime_number p}"
    by (auto simp: le_Suc_eq)
  with False show ?thesis by (simp add: prime_count_def)
qed

lemma prime_count_mono: "i \<le> j \<Longrightarrow> prime_count i \<le> prime_count j"
  unfolding prime_count_def by (intro card_mono) auto

lemma is_prime_number_2: "is_prime_number 2"
  by (auto simp: is_prime_number_def)

lemma prime_count_1: "prime_count 1 = 0"
  using prime_count_Suc[of 0] by (simp add: prime_count_0 not_prime_0_1)

lemma prime_count_2: "prime_count 2 = 1"
proof -
  have "prime_count (Suc (Suc 0)) = prime_count (Suc 0) + (if is_prime_number (Suc (Suc 0)) then 1 else 0)"
    by (rule prime_count_Suc)
  moreover have "is_prime_number (Suc (Suc 0))" using is_prime_number_2 by (simp add: numeral_2_eq_2)
  moreover have "prime_count (Suc 0) = 0" using prime_count_1 by simp
  ultimately have "prime_count (Suc (Suc 0)) = 1" by simp
  then show ?thesis by (simp add: numeral_2_eq_2)
qed

lemma pi_step_inv:
  assumes inv: "pi_inv N m st" and m: "Suc m \<le> nat N"
    and b: "b ! Suc m \<longleftrightarrow> is_prime_number (Suc m)"
  shows "pi_inv N (Suc m)
           ((\<lambda>(pi_t, cnt) k.
                let cnt' = (if b ! nat k then cnt + 1 else cnt)
                in (pi_t[nat k := cnt'], cnt')) st (int m + 1))"
proof -
  obtain pi_t cnt where st: "st = (pi_t, cnt)" by (cases st)
  from inv st have len: "length pi_t = nat (N + 1)" and cnt: "cnt = int (prime_count m)"
    and val: "\<And>k. k \<le> m \<Longrightarrow> pi_t ! k = int (prime_count k)"
    by (simp_all add: pi_inv_def)
  have idx: "nat (int m + 1) = Suc m" by simp
  define cnt' where "cnt' = (if b ! Suc m then cnt + 1 else cnt)"
  have c': "cnt' = int (prime_count (Suc m))"
    using b cnt by (simp add: cnt'_def prime_count_Suc)
  have res: "(\<lambda>(pi_t, cnt) k.
                let cnt' = (if b ! nat k then cnt + 1 else cnt)
                in (pi_t[nat k := cnt'], cnt')) st (int m + 1) = (pi_t[Suc m := cnt'], cnt')"
    unfolding st cnt'_def by (simp add: Let_def idx)
  from m len have inr: "Suc m < length pi_t" by simp
  have "pi_t[Suc m := cnt'] ! k = int (prime_count k)" if "k \<le> Suc m" for k
  proof (cases "k = Suc m")
    case True
    with inr c' show ?thesis by simp
  next
    case False
    with that have "k \<le> m" by simp
    with val False show ?thesis by simp
  qed
  with len c' show ?thesis unfolding res pi_inv_def by simp
qed

lemma pi_loop_inv:
  assumes b: "\<forall>k \<le> nat N. b ! k \<longleftrightarrow> is_prime_number k" and N: "0 \<le> N"
  shows "m \<le> nat N \<Longrightarrow>
         pi_inv N m (foldl (\<lambda>(pi_t, cnt) k.
                        let cnt' = (if b ! nat k then cnt + 1 else cnt)
                        in (pi_t[nat k := cnt'], cnt'))
                      (replicate (nat (N + 1)) 0, 0) [0..int m])"
proof (induction m)
  case 0
  have l: "[0..int 0] = [0]" by (simp add: upto_rec1)
  from b have "\<not> b ! 0" by (simp add: not_prime_0_1)
  then show ?case unfolding l using N by (simp add: pi_inv_def prime_count_0)
next
  case (Suc m)
  then have IH: "pi_inv N m (foldl (\<lambda>(pi_t, cnt) k.
                        let cnt' = (if b ! nat k then cnt + 1 else cnt)
                        in (pi_t[nat k := cnt'], cnt'))
                      (replicate (nat (N + 1)) 0, 0) [0..int m])" by simp
  have l: "[0..int (Suc m)] = [0..int m] @ [int m + 1]"
  proof -
    have "[0..int m + 1] = [0..int m + 1 - 1] @ [int m + 1]" by (rule upto_rec2) simp
    then show ?thesis by (simp add: add.commute)
  qed
  from b Suc.prems have bs: "b ! Suc m \<longleftrightarrow> is_prime_number (Suc m)" by simp
  from pi_step_inv[OF IH Suc.prems bs] show ?case unfolding l by simp
qed

lemma sieve_pi_correct:
  assumes N: "0 \<le> N"
  shows "\<exists>pi_t. sieve_pi N = Inr pi_t \<and> length pi_t = nat N + 1 \<and>
           (\<forall>i \<le> nat N. pi_t ! i = int (prime_count i))"
proof -
  from sieve_primes_bool_correct[of N] obtain b where
    b: "sieve_primes_bool N = Inr b" "\<forall>k. int k \<le> N \<longrightarrow> (b ! k \<longleftrightarrow> is_prime_number k)" by blast
  from b(2) N have b': "\<forall>k \<le> nat N. b ! k \<longleftrightarrow> is_prime_number k" by auto
  let ?st = "foldl (\<lambda>(pi_t, cnt) k.
                        let cnt' = (if b ! nat k then cnt + 1 else cnt)
                        in (pi_t[nat k := cnt'], cnt'))
                      (replicate (nat (N + 1)) (0::int), 0::int) [0..int (nat N)]"
  from pi_loop_inv[OF b' N order_refl] have inv: "pi_inv N (nat N) ?st" .
  have "py_range 0 (N + 1) = [0..int (nat N)]" using N by (simp add: py_range_def)
  with b(1) have "sieve_pi N = Inr (fst ?st)" by (simp add: sieve_pi_def rbind_def)
  moreover from inv N have "length (fst ?st) = nat N + 1" by (simp add: pi_inv_def nat_add_distrib)
  moreover from inv have "\<forall>i \<le> nat N. fst ?st ! i = int (prime_count i)" by (simp add: pi_inv_def)
  ultimately show ?thesis by blast
qed

lemma sieve_pi_10: "sieve_pi 10 = Inr [0, 0, 1, 2, 2, 3, 3, 4, 4, 4, 4]"
  by code_simp

text \<open>
  C6. For every \<open>N \<ge> 0\<close>, \<open>sieve_pi N\<close> returns a table of length \<open>N + 1\<close> whose entry \<open>i\<close>, for
  \<open>0 \<le> i \<le> N\<close>, is the number of primes up to \<open>i\<close>; the table is non-decreasing, its
  entry 1 is 0 and its entry 2 is 1 when these indices exist. And
  \<open>sieve_pi 10 = [0,0,1,2,2,3,3,4,4,4,4]\<close>.
\<close>

theorem sieve_pi_prime_count:
  assumes "0 \<le> N"
  shows "(\<exists>pi_t. sieve_pi N = Inr pi_t \<and> length pi_t = nat N + 1 \<and>
            (\<forall>i \<le> nat N. pi_t ! i = int (prime_count i)) \<and>
            (\<forall>i j. i \<le> j \<and> j \<le> nat N \<longrightarrow> pi_t ! i \<le> pi_t ! j) \<and>
            (1 \<le> N \<longrightarrow> pi_t ! 1 = 0) \<and> (2 \<le> N \<longrightarrow> pi_t ! 2 = 1)) \<and>
         sieve_pi 10 = Inr [0, 0, 1, 2, 2, 3, 3, 4, 4, 4, 4]"
proof -
  from sieve_pi_correct[OF assms] obtain pi_t where
    r: "sieve_pi N = Inr pi_t" "length pi_t = nat N + 1"
    and v: "\<And>i. i \<le> nat N \<Longrightarrow> pi_t ! i = int (prime_count i)" by blast
  have "\<forall>i j. i \<le> j \<and> j \<le> nat N \<longrightarrow> pi_t ! i \<le> pi_t ! j"
  proof (intro allI impI)
    fix i j assume a: "i \<le> j \<and> j \<le> nat N"
    then have "pi_t ! i = int (prime_count i)" "pi_t ! j = int (prime_count j)" using v by simp_all
    with a show "pi_t ! i \<le> pi_t ! j" using prime_count_mono[of i j] by simp
  qed
  moreover have "1 \<le> N \<longrightarrow> pi_t ! 1 = 0" using v[of 1] prime_count_1 by auto
  moreover have "2 \<le> N \<longrightarrow> pi_t ! 2 = 1" using v[of 2] prime_count_2 by auto
  ultimately show ?thesis using r v sieve_pi_10 by blast
qed

theorem sieve_pi_prime_count_witness:
  "\<exists>pi_t. sieve_pi 10 = Inr pi_t \<and> length pi_t = 11 \<and> pi_t ! 1 = 0 \<and> pi_t ! 2 = 1 \<and>
     pi_t ! 5 = int (prime_count 5) \<and> pi_t ! 5 \<le> pi_t ! 7"
proof -
  have h: "(0::int) \<le> 10" by simp
  from sieve_pi_prime_count[OF h] obtain pi_t where
    r: "sieve_pi 10 = Inr pi_t" "length pi_t = nat 10 + 1"
    and v: "\<forall>i \<le> nat 10. pi_t ! i = int (prime_count i)"
    and m: "\<forall>i j. i \<le> j \<and> j \<le> nat 10 \<longrightarrow> pi_t ! i \<le> pi_t ! j"
    and o: "1 \<le> (10::int) \<longrightarrow> pi_t ! 1 = 0" "2 \<le> (10::int) \<longrightarrow> pi_t ! 2 = 1" by blast
  from v have "pi_t ! 5 = int (prime_count 5)" by simp
  moreover from m have "pi_t ! 5 \<le> pi_t ! 7" by simp
  ultimately show ?thesis using r o by simp
qed

section \<open>The stream over the tables of the sieves\<close>

lemma coprime_count_pos: "1 \<le> i \<Longrightarrow> 1 \<le> coprime_count i"
proof -
  assume i: "1 \<le> i"
  have "{1} \<subseteq> {k \<in> {1..i}. coprime k i}" using i by auto
  then have "card {1::nat} \<le> card {k \<in> {1..i}. coprime k i}" by (intro card_mono) simp_all
  then show ?thesis by (simp add: coprime_count_def)
qed

lemma sieve_tables_adequate:
  assumes "N \<le> M" "sieve_pi M = Inr pi_t"
  shows "adequate N (sieve_phi M) pi_t"
proof (cases "0 \<le> M")
  case False
  with assms(1) have "N < 0" by simp
  then show ?thesis by (simp add: adequate_def)
next
  case True
  note phi = sieve_phi_correct[OF True]
  from sieve_pi_correct[OF True] assms(2) have
    pl: "length pi_t = nat M + 1" and pv: "\<And>i. i \<le> nat M \<Longrightarrow> pi_t ! i = int (prime_count i)"
    by auto
  have "sieve_phi M ! nat i + pi_t ! nat i \<noteq> 0" if "i \<in> {2..N}" for i
  proof -
    from that assms(1) have i: "nat i \<le> nat M" "1 \<le> nat i" by auto
    from phi(2)[OF i(1)] coprime_count_pos[OF i(2)] have "1 \<le> sieve_phi M ! nat i" by simp
    moreover from pv[OF i(1)] have "0 \<le> pi_t ! nat i" by simp
    ultimately show ?thesis by simp
  qed
  with phi(1) pl assms(1) True show ?thesis by (simp add: adequate_def)
qed

text \<open>
  C1. For \<open>N \<ge> 1\<close>, \<open>1 \<le> n \<le> N\<close> and the tables the sieves build for a bound \<open>M \<ge> N\<close> (so of
  length \<open>M + 1 \<ge> N + 1\<close>), the generator yields \<open>N\<close> records and the \<open>n\<close>-th of them holds the
  values the scalar evaluators \<open>Xi n\<close>, \<open>Omega n \<phi> \<pi>\<close> and \<open>E n\<close> return.
\<close>

theorem stream_matches_scalar:
  assumes "1 \<le> n" "n \<le> N" "N \<le> M" "sieve_pi M = Inr pi_t"
  shows "\<exists>rs x om e f.
           stream_prefix_values N (sieve_phi M) pi_t = (rs, None) \<and> length rs = nat N \<and>
           rs ! nat (n - 1) = (n, x, om, e, f) \<and>
           Xi n = Inr x \<and> Omega n (sieve_phi M) pi_t = Inr om \<and> E n = Inr e"
proof -
  from stream_adequate[OF sieve_tables_adequate[OF assms(3,4)]] obtain rs where
    res: "stream_prefix_values N (sieve_phi M) pi_t = (rs, None)" and
    len: "int (length rs) = max 0 N" and
    recs: "\<And>j. j < length rs \<Longrightarrow> \<exists>x om e.
            rs ! j = (1 + int j, x, om, e, x + om - e) \<and>
            Xi (1 + int j) = Inr x \<and> Omega (1 + int j) (sieve_phi M) pi_t = Inr om \<and>
            E (1 + int j) = Inr e" by blast
  from len assms have len': "length rs = nat N" by simp
  with assms have "nat (n - 1) < length rs" by simp
  from recs[OF this] assms(1) obtain x om e where
    "rs ! nat (n - 1) = (n, x, om, e, x + om - e)"
    "Xi n = Inr x" "Omega n (sieve_phi M) pi_t = Inr om" "E n = Inr e" by auto
  with res len' show ?thesis by blast
qed

theorem stream_matches_scalar_witness:
  "\<exists>rs x om e f.
           stream_prefix_values 3 (sieve_phi 3) [0, 0, 1, 2] = (rs, None) \<and> length rs = 3 \<and>
           rs ! 1 = (2, x, om, e, f) \<and>
           Xi 2 = Inr x \<and> Omega 2 (sieve_phi 3) [0, 0, 1, 2] = Inr om \<and> E 2 = Inr e"
proof -
  have pi3: "sieve_pi 3 = Inr [0, 0, 1, 2]" by code_simp
  have "(1::int) \<le> 2" "(2::int) \<le> 3" "(3::int) \<le> 3" by simp_all
  from stream_matches_scalar[OF this pi3] show ?thesis by simp
qed

section \<open>The certification composer\<close>

lemma capture_inv_full:
  assumes inv: "capture_inv need j vals" and fin: "finite need"
    and full: "int (length vals) = int (card need)" and mem: "n \<in> need"
  shows "n \<le> j"
proof -
  from inv have "length vals = card (fst ` set vals)"
    by (metis capture_inv_def distinct_card length_map set_map)
  with inv full have "card (need \<inter> {1..j}) = card need" by (simp add: capture_inv_def)
  moreover have "need \<inter> {1..j} \<subseteq> need" by simp
  ultimately have "need \<inter> {1..j} = need" using fin by (simp add: card_subset_eq)
  with mem show ?thesis by auto
qed

lemma capture_inv_store:
  assumes "capture_inv need j vals" "j + 1 \<in> need" "0 \<le> j"
  shows "capture_inv need (j + 1) (AList.update (j + 1) v vals)"
proof -
  from assms(2,3) have "need \<inter> {1..j + 1} = {j + 1} \<union> (need \<inter> {1..j})" by auto
  with assms(1) show ?thesis
    by (simp add: capture_inv_def distinct_update dom_update)
qed

lemma capture_inv_skip:
  assumes "capture_inv need j vals" "j + 1 \<notin> need"
  shows "capture_inv need (j + 1) vals"
proof -
  have "need \<inter> {1..j + 1} = need \<inter> {1..j}"
  proof (intro set_eqI iffI)
    fix x assume "x \<in> need \<inter> {1..j + 1}"
    with assms(2) have "x \<in> need" "1 \<le> x" "x \<le> j + 1" "x \<noteq> j + 1" by auto
    then show "x \<in> need \<inter> {1..j}" by simp
  next
    fix x assume "x \<in> need \<inter> {1..j}"
    then show "x \<in> need \<inter> {1..j + 1}" by simp
  qed
  with assms(1) show ?thesis by (simp add: capture_inv_def)
qed

lemma capture_loop_captures:
  assumes fin: "finite need" and ref: "N_ref \<in> need"
    and tb: "triad_tail_bound N_ref D = Inr TB"
  shows "capture_inv need j vals \<Longrightarrow> 0 \<le> j \<Longrightarrow> N_ref \<le> j + int (length suf) \<Longrightarrow>
         (\<forall>i < length suf. fst (suf ! i) = j + 1 + int i) \<Longrightarrow>
         (N_ref \<le> j \<longrightarrow> map_of vals N_ref = Some V \<and> map_of R N_ref = Some TB) \<Longrightarrow>
         (j < N_ref \<longrightarrow> suf ! nat (N_ref - j - 1) = (N_ref, V)) \<Longrightarrow>
         \<exists>vals' R'. capture_loop need D vals R (suf, None) = Inr (vals', R') \<and>
            map_of vals' N_ref = Some V \<and> map_of R' N_ref = Some TB"
proof (induction suf arbitrary: j vals R)
  case Nil
  then show ?case by simp
next
  case (Cons r suf)
  obtain n x om e_v f_v where r: "r = (n, x, om, e_v, f_v)" by (cases r)
  from Cons.prems(4) have "fst ((r # suf) ! 0) = j + 1 + int 0" by blast
  with r have n: "n = j + 1" by simp
  have firsts: "\<forall>i < length suf. fst (suf ! i) = (j + 1) + 1 + int i"
  proof (intro allI impI)
    fix i assume "i < length suf"
    then have "Suc i < length (r # suf)" by simp
    with Cons.prems(4) have "fst ((r # suf) ! Suc i) = j + 1 + int (Suc i)" by blast
    then show "fst (suf ! i) = (j + 1) + 1 + int i" by simp
  qed
  have j1: "0 \<le> j + 1" using Cons.prems(2) by simp
  have bound: "N_ref \<le> (j + 1) + int (length suf)" using Cons.prems(3) by simp
  have later: "j + 1 < N_ref \<longrightarrow> suf ! nat (N_ref - (j + 1) - 1) = (N_ref, V)"
  proof
    assume a: "j + 1 < N_ref"
    then have "nat (N_ref - j - 1) = Suc (nat (N_ref - (j + 1) - 1))" by simp
    moreover from a Cons.prems(6) have "(r # suf) ! nat (N_ref - j - 1) = (N_ref, V)" by simp
    ultimately show "suf ! nat (N_ref - (j + 1) - 1) = (N_ref, V)" by simp
  qed
  show ?case
  proof (cases "n \<in> need")
    case True
    obtain tbn where tbn: "triad_tail_bound n D = Inr tbn"
      using triad_tail_bound_eq[of n D] by blast
    let ?vals' = "AList.update n (x, om, e_v, f_v) vals"
    let ?R' = "AList.update n tbn R"
    from True n Cons.prems(1,2) have inv': "capture_inv need (j + 1) ?vals'"
      using capture_inv_store[of need j vals "(x, om, e_v, f_v)"] by simp
    have now: "N_ref \<le> j + 1 \<longrightarrow> map_of ?vals' N_ref = Some V \<and> map_of ?R' N_ref = Some TB"
    proof
      assume le: "N_ref \<le> j + 1"
      show "map_of ?vals' N_ref = Some V \<and> map_of ?R' N_ref = Some TB"
      proof (cases "N_ref = j + 1")
        case eq: True
        with Cons.prems(6) have "(r # suf) ! 0 = (N_ref, V)" by simp
        with r have "V = (x, om, e_v, f_v)" by simp
        moreover from eq n tb tbn have "tbn = TB" by simp
        ultimately show ?thesis using eq n by (simp add: update_conv')
      next
        case False
        with le have "N_ref \<le> j" by simp
        with Cons.prems(5) False n show ?thesis by (simp add: update_conv')
      qed
    qed
    show ?thesis
    proof (cases "int (length ?vals') = int (card need)")
      case full: True
      from capture_inv_full[OF inv' fin full ref] now
      have "map_of ?vals' N_ref = Some V \<and> map_of ?R' N_ref = Some TB" by simp
      moreover have "capture_loop need D vals R (r # suf, None) = Inr (?vals', ?R')"
        using True tbn full by (simp add: r rbind_def)
      ultimately show ?thesis by blast
    next
      case False
      from Cons.IH[OF inv' j1 bound firsts now later]
      obtain vals'' R'' where "capture_loop need D ?vals' ?R' (suf, None) = Inr (vals'', R'')"
        "map_of vals'' N_ref = Some V" "map_of R'' N_ref = Some TB" by blast
      moreover have "capture_loop need D vals R (r # suf, None) =
                     capture_loop need D ?vals' ?R' (suf, None)"
        using True tbn False by (simp add: r rbind_def)
      ultimately show ?thesis by simp
    qed
  next
    case nin: False
    from nin n Cons.prems(1) have inv': "capture_inv need (j + 1) vals"
      using capture_inv_skip[of need j vals] by simp
    have now: "N_ref \<le> j + 1 \<longrightarrow> map_of vals N_ref = Some V \<and> map_of R N_ref = Some TB"
    proof
      assume le: "N_ref \<le> j + 1"
      from nin n ref have "N_ref \<noteq> j + 1" by auto
      with le have "N_ref \<le> j" by simp
      with Cons.prems(5) show "map_of vals N_ref = Some V \<and> map_of R N_ref = Some TB" by simp
    qed
    show ?thesis
    proof (cases "int (length vals) = int (card need)")
      case full: True
      from capture_inv_full[OF inv' fin full ref] now
      have "map_of vals N_ref = Some V \<and> map_of R N_ref = Some TB" by simp
      moreover have "capture_loop need D vals R (r # suf, None) = Inr (vals, R)"
        using nin full by (simp add: r)
      ultimately show ?thesis by blast
    next
      case False
      from Cons.IH[OF inv' j1 bound firsts now later]
      obtain vals'' R'' where "capture_loop need D vals R (suf, None) = Inr (vals'', R'')"
        "map_of vals'' N_ref = Some V" "map_of R'' N_ref = Some TB" by blast
      moreover have "capture_loop need D vals R (r # suf, None) =
                     capture_loop need D vals R (suf, None)"
        using nin False by (simp add: r)
      ultimately show ?thesis by simp
    qed
  qed
qed

text \<open>
  C4. Given sample points (a non-empty list) and a reference index \<open>N_ref \<ge> 1\<close>,
  \<open>compute_values\<close> returns, as its third component, the pair
  \<open>(F(N_ref) - R_total(N_ref), F(N_ref) + R_total(N_ref))\<close>, where \<open>F(N_ref)\<close> is the fifth
  component of the record number \<open>N_ref\<close> of the stream over the sieve tables for
  \<open>N = max (max points) N_ref\<close> (which is also what the scalar evaluator \<open>F\<close> returns) and
  \<open>R_total(N_ref)\<close> is the fourth component of \<open>triad_tail_bound N_ref D\<close>. For a
  positive \<open>D\<close>, so for the default 10, \<open>R_total(N_ref)\<close> is positive and the lower endpoint
  is at most the upper one.
\<close>

theorem compute_values_interval:
  assumes "points \<noteq> []" "1 \<le> N_ref"
  shows "\<exists>pi_t vals R x om e f rx re ro rt.
           sieve_pi (max (Max (set points)) N_ref) = Inr pi_t \<and>
           compute_values points N_ref D = Inr (vals, R, (f - rt, f + rt)) \<and>
           fst (stream_prefix_values (max (Max (set points)) N_ref)
                  (sieve_phi (max (Max (set points)) N_ref)) pi_t) ! nat (N_ref - 1)
             = (N_ref, x, om, e, f) \<and>
           F N_ref (sieve_phi (max (Max (set points)) N_ref)) pi_t = Inr f \<and>
           triad_tail_bound N_ref D = Inr (rx, re, ro, rt) \<and>
           (0 < D \<longrightarrow> 0 < rt \<and> f - rt \<le> f + rt)"
proof -
  define N where "N = max (Max (set points)) N_ref"
  have N: "N_ref \<le> N" "0 \<le> N" using assms(2) by (simp_all add: N_def)
  from sieve_pi_correct[OF N(2)] obtain pi_t where pi_t: "sieve_pi N = Inr pi_t" by blast
  have ad: "adequate N (sieve_phi N) pi_t" using sieve_tables_adequate[OF order_refl pi_t] .
  from stream_adequate[OF ad] obtain rs where
    res: "stream_prefix_values N (sieve_phi N) pi_t = (rs, None)" and
    len: "int (length rs) = max 0 N" and
    recs: "\<And>j. j < length rs \<Longrightarrow> \<exists>x om e.
            rs ! j = (1 + int j, x, om, e, x + om - e) \<and>
            Xi (1 + int j) = Inr x \<and> Omega (1 + int j) (sieve_phi N) pi_t = Inr om \<and>
            E (1 + int j) = Inr e" by blast
  from len N have len': "int (length rs) = N" by simp
  with assms(2) N have "nat (N_ref - 1) < length rs" by simp
  from recs[OF this] assms(2) obtain x om e where
    rec: "rs ! nat (N_ref - 1) = (N_ref, x, om, e, x + om - e)" and
    sc: "Xi N_ref = Inr x" "Omega N_ref (sieve_phi N) pi_t = Inr om" "E N_ref = Inr e" by auto
  define f where "f = x + om - e"
  have Ff: "F N_ref (sieve_phi N) pi_t = Inr f" by (simp add: F_def sc rbind_def f_def)
  define rx where "rx = RXi (real_of_int (max N_ref 2))"
  define re where "re = RE (real_of_int (max N_ref 2))"
  define ro where "ro = ROm D (real_of_int (max N_ref 3))"
  define rt where "rt = rx + re + ro"
  have tb: "triad_tail_bound N_ref D = Inr (rx, re, ro, rt)"
    unfolding rx_def re_def ro_def rt_def by (rule triad_tail_bound_R)
  let ?need = "set points \<union> {N_ref}"
  have inv0: "capture_inv ?need 0 []" by (simp add: capture_inv_def)
  have firsts: "\<forall>i < length rs. fst (rs ! i) = 0 + 1 + int i"
  proof (intro allI impI)
    fix i assume "i < length rs"
    from recs[OF this] show "fst (rs ! i) = 0 + 1 + int i" by auto
  qed
  have "\<exists>vals' R'. capture_loop ?need D [] [] (rs, None) = Inr (vals', R') \<and>
            map_of vals' N_ref = Some (x, om, e, f) \<and> map_of R' N_ref = Some (rx, re, ro, rt)"
  proof (rule capture_loop_captures[OF _ _ tb inv0 _ _ firsts])
    show "finite ?need" by simp
    show "N_ref \<in> ?need" by simp
    show "(0::int) \<le> 0" by simp
    show "N_ref \<le> 0 + int (length rs)" using len' N by simp
    show "N_ref \<le> 0 \<longrightarrow> map_of [] N_ref = Some (x, om, e, f) \<and> map_of [] N_ref = Some (rx, re, ro, rt)"
      using assms(2) by simp
    show "0 < N_ref \<longrightarrow> rs ! nat (N_ref - 0 - 1) = (N_ref, x, om, e, f)"
      using rec by (simp add: f_def)
  qed
  then obtain vals R where cap: "capture_loop ?need D [] [] (rs, None) = Inr (vals, R)"
    "map_of vals N_ref = Some (x, om, e, f)" "map_of R N_ref = Some (rx, re, ro, rt)" by blast
  have cv: "compute_values points N_ref D = Inr (vals, R, (f - rt, f + rt))"
    using assms(1) pi_t res cap
    by (simp add: compute_values_def Let_def N_def[symmetric] rbind_def)
  have pos: "0 < D \<longrightarrow> 0 < rt \<and> f - rt \<le> f + rt"
  proof
    assume D: "0 < D"
    have "(2::real) \<le> real_of_int (max N_ref 2)" "(3::real) \<le> real_of_int (max N_ref 3)" by simp_all
    with D have "0 < rx" "0 < re" "0 < ro"
      unfolding rx_def re_def ro_def using RXi_pos RE_pos ROm_pos by simp_all
    then have "0 < rt" by (simp add: rt_def)
    then show "0 < rt \<and> f - rt \<le> f + rt" by simp
  qed
  from pi_t cv rec Ff tb pos res show ?thesis
    unfolding N_def[symmetric] f_def[symmetric] by (simp del: max.bounded_iff)
qed

theorem compute_values_interval_witness:
  "\<exists>pi_t vals R f rt.
      sieve_pi 2 = Inr pi_t \<and>
      compute_values [2] 1 10 = Inr (vals, R, (f - rt, f + rt)) \<and>
      F 1 (sieve_phi 2) pi_t = Inr f \<and> 0 < rt \<and> f - rt \<le> f + rt"
proof -
  have h: "[2::int] \<noteq> []" "(1::int) \<le> 1" by simp_all
  from compute_values_interval[OF h, of 10] show ?thesis by simp blast
qed

end
